theory Spec2Isabelle
  imports Main "HOL-Library.AList" "HOL-Library.Char_ord" "HOL-Library.List_Lexorder"
    "HOL-Library.Multiset"
begin

section \<open>The undelivered payload queue of delivery-expo (queue.js)\<close>

text \<open>
  The queue keeps undelivered payloads as JSON files in one directory of the device's
  cache. Everything it does goes through six calls of expo's \<^verbatim>\<open>FileSystem\<close>, so the
  model has three layers: JavaScript values and strings, the file system, and the
  methods of the class \<^verbatim>\<open>UndeliveredPayloadQueue\<close>.

  Strings are \<^typ>\<open>string\<close>: lists of 8-bit characters, standing for JavaScript strings
  whose code units are below 256. The order on strings is the lexicographic order of
  the code units, which is the order \<^verbatim>\<open>Array.prototype.sort\<close> uses without a comparator.
\<close>

subsection \<open>JavaScript values\<close>

text \<open>
  The values \<^verbatim>\<open>JSON.stringify\<close> and \<^verbatim>\<open>JSON.parse\<close> exchange. Numbers are integers
  (\<^verbatim>\<open>retries\<close> is a counter); an object is the list of its properties in the order
  JavaScript enumerates them.
\<close>

datatype json =
    JNull
  | JBool bool
  | JNum int
  | JStr string
  | JArr "json list"
  | JObj "(string \<times> json) list"

text \<open>\<^verbatim>\<open>Number.prototype.toString\<close> on a natural number: its decimal digits.\<close>

definition digit :: "nat \<Rightarrow> char" where
  "digit d = char_of (48 + d)"

fun toString :: "nat \<Rightarrow> string" where
  "toString n = (if n < 10 then [digit n] else toString (n div 10) @ [digit (n mod 10)])"

declare toString.simps [simp del]

text \<open>
  The own enumerable properties that the spread syntax \<^verbatim>\<open>{ ...v }\<close> copies: those of an
  object, the indexed elements of an array, the indexed characters of a string, and
  nothing for \<^verbatim>\<open>null\<close>, booleans and numbers.
\<close>

fun spread :: "json \<Rightarrow> (string \<times> json) list" where
  "spread (JObj props) = props"
| "spread (JArr xs) = zip (map toString [0..<length xs]) xs"
| "spread (JStr s) = zip (map toString [0..<length s]) (map (\<lambda>c. JStr [c]) s)"
| "spread _ = []"

text \<open>
  A property key is an array index when it is the decimal numeral of a number below
  \<open>2\<^sup>3\<^sup>2 - 1\<close>. An object lists its array indices first, in ascending order, and
  then its other keys in the order they were created.
\<close>

definition array_index :: "string \<Rightarrow> nat option" where
  "array_index k =
     (let n = foldl (\<lambda>n c. 10 * n + (of_char c - 48)) 0 k
      in if toString n = k \<and> n < 4294967295 then Some n else None)"

text \<open>The place of a new array index: before the first key that is not a smaller index.\<close>

fun put_index :: "nat \<Rightarrow> string \<Rightarrow> json \<Rightarrow> (string \<times> json) list \<Rightarrow> (string \<times> json) list" where
  "put_index i k v [] = [(k, v)]"
| "put_index i k v (p # ps) =
     (case array_index (fst p) of
        Some j \<Rightarrow> if j < i then p # put_index i k v ps else (k, v) # p # ps
      | None \<Rightarrow> (k, v) # p # ps)"

text \<open>
  Assigning one property: an existing key keeps its place and takes the new value, a
  new array index goes to its place among the indices, any other new key to the end.
\<close>

definition put_prop :: "string \<Rightarrow> json \<Rightarrow> (string \<times> json) list \<Rightarrow> (string \<times> json) list" where
  "put_prop k v obj =
     (if k \<in> fst ` set obj then AList.update k v obj
      else case array_index k of Some i \<Rightarrow> put_index i k v obj | None \<Rightarrow> obj @ [(k, v)])"

text \<open>Copying properties into an object literal assigns them one by one.\<close>

definition copy_props :: "(string \<times> json) list \<Rightarrow> (string \<times> json) list \<Rightarrow> (string \<times> json) list" where
  "copy_props src obj = foldl (\<lambda>acc (k, v). put_prop k v acc) obj src"

text \<open>\<^verbatim>\<open>{ ...req, retries: 0 }\<close>\<close>

definition with_retries_0 :: "json \<Rightarrow> json" where
  "with_retries_0 req = JObj (put_prop ''retries'' (JNum 0) (copy_props (spread req) []))"

text \<open>\<^verbatim>\<open>{ ...payload, ...updates }\<close>\<close>

definition shallow_merge :: "json \<Rightarrow> json \<Rightarrow> json" where
  "shallow_merge payload updates = JObj (copy_props (spread updates) (copy_props (spread payload) []))"

text \<open>
  The text of a file is modelled by what \<^verbatim>\<open>JSON.parse\<close> makes of it: \<open>Json v\<close> is the
  text that \<^verbatim>\<open>JSON.stringify\<close> writes for \<open>v\<close> and that parses back to \<open>v\<close>;
  \<open>Corrupt t\<close> is a text \<open>t\<close> that \<^verbatim>\<open>JSON.parse\<close> rejects with a \<^verbatim>\<open>SyntaxError\<close>.
\<close>

datatype file_text = Json json | Corrupt string

subsection \<open>The file system\<close>

text \<open>
  The six calls the queue makes. A call fails (its promise rejects) either for a reason
  visible in the stored files (no such file, no such directory) or because of an
  input/output fault from outside: \<open>io_fault fs n op\<close> says that the \<open>n\<close>-th call made
  on the file system fails if it is \<open>op\<close>. A failed call changes no file.
\<close>

datatype fs_op =
    GetInfo string
  | MakeDirectory string
  | ReadDirectory string
  | WriteAsString string
  | ReadAsString string
  | Delete string

datatype error = FsError fs_op | SyntaxError

record filesystem =
  dirs :: "string list"
  files :: "(string \<times> file_text) list"
  io_fault :: "nat \<Rightarrow> fs_op \<Rightarrow> bool"
  io_count :: nat

text \<open>
  The object of class \<^verbatim>\<open>UndeliveredPayloadQueue\<close>, together with the file system it
  works on. \<open>q_onerror\<close> stands for the callback \<^verbatim>\<open>_onerror\<close>: it holds the errors the
  callback has been called with, oldest first.
\<close>

record queue = filesystem +
  q_resource :: string
  q_path :: string
  q_onerror :: "error list"
  q_truncating :: bool

definition tick :: "'a filesystem_scheme \<Rightarrow> 'a filesystem_scheme" where
  "tick s = s\<lparr>io_count := Suc (io_count s)\<rparr>"

definition faulted :: "fs_op \<Rightarrow> 'a filesystem_scheme \<Rightarrow> bool" where
  "faulted op s = io_fault s (io_count s) op"

text \<open>
  Path \<open>p\<close> is directly inside directory \<open>d\<close> when it is \<open>d\<close>, a slash, and a name
  without a slash; \<open>child_name d p\<close> is that name.
\<close>

definition child_name :: "string \<Rightarrow> string \<Rightarrow> string option" where
  "child_name d p =
     (let n = drop (Suc (length d)) p
      in if take (Suc (length d)) p = d @ ''/'' \<and> CHR ''/'' \<notin> set n then Some n else None)"

text \<open>The names of the files and directories directly inside directory \<open>d\<close>.\<close>

definition entries :: "string \<Rightarrow> 'a filesystem_scheme \<Rightarrow> string list" where
  "entries d s = List.map_filter (child_name d) (map fst (files s) @ dirs s)"

text \<open>What lies beneath a path: the entries of a directory, recursively.\<close>

definition beneath :: "string \<Rightarrow> string \<Rightarrow> bool" where
  "beneath p f = (take (Suc (length p)) f = p @ ''/'')"

definition getInfoAsync :: "string \<Rightarrow> 'a filesystem_scheme \<Rightarrow> (error + bool \<times> bool) \<times> 'a filesystem_scheme" where
  "getInfoAsync p s =
     (if faulted (GetInfo p) s then (Inl (FsError (GetInfo p)), tick s)
      else let isDirectory = (p \<in> set (dirs s));
               exists = (isDirectory \<or> map_of (files s) p \<noteq> None)
           in (Inr (exists, isDirectory), tick s))"

text \<open>
  \<^verbatim>\<open>makeDirectoryAsync(p, { intermediates: true })\<close>. Only the directory itself is
  recorded: the queue never looks at its ancestors.
\<close>

definition makeDirectoryAsync :: "string \<Rightarrow> 'a filesystem_scheme \<Rightarrow> (error + unit) \<times> 'a filesystem_scheme" where
  "makeDirectoryAsync p s =
     (if faulted (MakeDirectory p) s \<or> map_of (files s) p \<noteq> None
      then (Inl (FsError (MakeDirectory p)), tick s)
      else (Inr (), tick (if p \<in> set (dirs s) then s else s\<lparr>dirs := dirs s @ [p]\<rparr>)))"

definition readDirectoryAsync :: "string \<Rightarrow> 'a filesystem_scheme \<Rightarrow> (error + string list) \<times> 'a filesystem_scheme" where
  "readDirectoryAsync d s =
     (if faulted (ReadDirectory d) s \<or> d \<notin> set (dirs s)
      then (Inl (FsError (ReadDirectory d)), tick s)
      else (Inr (entries d s), tick s))"

definition writeAsStringAsync :: "string \<Rightarrow> file_text \<Rightarrow> 'a filesystem_scheme \<Rightarrow> (error + unit) \<times> 'a filesystem_scheme" where
  "writeAsStringAsync p t s =
     (if faulted (WriteAsString p) s \<or> \<not> list_ex (\<lambda>d. child_name d p \<noteq> None) (dirs s) \<or> p \<in> set (dirs s)
      then (Inl (FsError (WriteAsString p)), tick s)
      else (Inr (), tick (s\<lparr>files := AList.update p t (files s)\<rparr>)))"

definition readAsStringAsync :: "string \<Rightarrow> 'a filesystem_scheme \<Rightarrow> (error + file_text) \<times> 'a filesystem_scheme" where
  "readAsStringAsync p s =
     (if faulted (ReadAsString p) s then (Inl (FsError (ReadAsString p)), tick s)
      else case map_of (files s) p of
             None \<Rightarrow> (Inl (FsError (ReadAsString p)), tick s)
           | Some t \<Rightarrow> (Inr t, tick s))"

text \<open>
  \<^verbatim>\<open>deleteAsync(p)\<close> without the option \<^verbatim>\<open>idempotent\<close>: it rejects when nothing is at
  \<open>p\<close>, and deletes a directory together with what is beneath it.
\<close>

definition deleteAsync :: "string \<Rightarrow> 'a filesystem_scheme \<Rightarrow> (error + unit) \<times> 'a filesystem_scheme" where
  "deleteAsync p s =
     (if faulted (Delete p) s \<or> (map_of (files s) p = None \<and> p \<notin> set (dirs s))
      then (Inl (FsError (Delete p)), tick s)
      else (Inr (), tick (s\<lparr>files := filter (\<lambda>(f, t). f \<noteq> p \<and> \<not> beneath p f) (files s),
                             dirs := filter (\<lambda>d. d \<noteq> p \<and> \<not> beneath p d) (dirs s)\<rparr>)))"

text \<open>A file system on which no call fails for an outside reason.\<close>

definition no_faults :: "nat \<Rightarrow> fs_op \<Rightarrow> bool" where
  "no_faults n op = False"

text \<open>
  \<^verbatim>\<open>JSON.stringify\<close> and \<^verbatim>\<open>JSON.parse\<close> on plain data: the values of type \<^typ>\<open>json\<close>
  have no \<^verbatim>\<open>toJSON\<close> method and no property that \<^verbatim>\<open>JSON.stringify\<close> leaves out.
\<close>

definition JSON_stringify :: "json \<Rightarrow> file_text" where
  "JSON_stringify v = Json v"

definition JSON_parse :: "file_text \<Rightarrow> error + json" where
  "JSON_parse t = (case t of Json v \<Rightarrow> Inr v | Corrupt _ \<Rightarrow> Inl SyntaxError)"

subsection \<open>Constants and file names\<close>

definition MAX_ITEMS :: int where
  "MAX_ITEMS = 64"

text \<open>\<^verbatim>\<open>`${FileSystem.cacheDirectory}bugsnag`\<close>, the cache directory being the device's.\<close>

definition PAYLOAD_PATH :: "string \<Rightarrow> string" where
  "PAYLOAD_PATH cacheDirectory = cacheDirectory @ ''bugsnag''"

text \<open>
  \<^verbatim>\<open>/^bugsnag-.*\.json$/\<close>: the name is \<^verbatim>\<open>bugsnag-\<close>, then any characters but line
  terminators, then \<^verbatim>\<open>.json\<close>.
\<close>

definition line_terminator :: "char \<Rightarrow> bool" where
  "line_terminator c = (c = CHR 0x0A \<or> c = CHR 0x0D)"

definition filenameRe :: "string \<Rightarrow> bool" where
  "filenameRe f =
     (take 8 f = ''bugsnag-'' \<and>
      (let r = drop 8 f
       in 5 \<le> length r \<and> drop (length r - 5) r = ''.json'' \<and>
          list_all (\<lambda>c. \<not> line_terminator c) (take (length r - 5) r)))"

text \<open>
  \<^verbatim>\<open>uid\<close>: sixteen decimal digits. \<open>rnd i\<close> is the value of
  \<^verbatim>\<open>Math.floor(Math.random() * 10)\<close> at the \<open>i\<close>-th of the sixteen calls.
\<close>

definition uid :: "(nat \<Rightarrow> nat) \<Rightarrow> string" where
  "uid rnd = foldl (\<lambda>accum i. accum @ toString (rnd i)) [] [0..<16]"

text \<open>
  A \<^verbatim>\<open>Date\<close> by its UTC fields, and \<^verbatim>\<open>toISOString\<close>:
  \<^verbatim>\<open>YYYY-MM-DDTHH:mm:ss.sssZ\<close>, the year with a sign and six digits outside 0..9999.
  \<open>digits w n\<close> is \<open>n\<close> in \<open>w\<close> decimal digits, padded with zeros.
\<close>

record date =
  year :: int
  month :: nat
  day :: nat
  hours :: nat
  minutes :: nat
  seconds :: nat
  milliseconds :: nat

primrec digits :: "nat \<Rightarrow> nat \<Rightarrow> string" where
  "digits 0 n = []"
| "digits (Suc w) n = digits w (n div 10) @ [digit (n mod 10)]"

definition toISOString :: "date \<Rightarrow> string" where
  "toISOString d =
     (if 0 \<le> year d \<and> year d \<le> 9999 then digits 4 (nat (year d))
      else (if year d < 0 then ''-'' else ''+'') @ digits 6 (nat \<bar>year d\<bar>))
     @ ''-'' @ digits 2 (month d) @ ''-'' @ digits 2 (day d)
     @ ''T'' @ digits 2 (hours d) @ '':'' @ digits 2 (minutes d) @ '':'' @ digits 2 (seconds d)
     @ ''.'' @ digits 3 (milliseconds d) @ ''Z''"

text \<open>\<open>now\<close> is the value of \<^verbatim>\<open>new Date()\<close> when the name is generated.\<close>

definition generateFilename :: "string \<Rightarrow> date \<Rightarrow> (nat \<Rightarrow> nat) \<Rightarrow> string" where
  "generateFilename resource now rnd =
     ''bugsnag-'' @ resource @ ''-'' @ toISOString now @ ''-'' @ uid rnd @ ''.json''"

subsection \<open>The methods of the queue\<close>

text \<open>
  Each method runs to completion before the next one starts. A rejected promise inside
  a \<^verbatim>\<open>try\<close> block is the \<open>Inl\<close> branch of the call; the \<^verbatim>\<open>catch\<close> block is what that
  branch does. No method has an error result, because each body is one \<^verbatim>\<open>try\<close>.
\<close>

definition UndeliveredPayloadQueue :: "string \<Rightarrow> string \<Rightarrow> filesystem \<Rightarrow> queue" where
  "UndeliveredPayloadQueue cacheDirectory resource fs =
     \<lparr>dirs = dirs fs, files = files fs, io_fault = io_fault fs, io_count = io_count fs,
      q_resource = resource,
      q_path = PAYLOAD_PATH cacheDirectory @ ''/'' @ resource,
      q_onerror = [],
      q_truncating = False\<rparr>"

definition onerror :: "error \<Rightarrow> queue \<Rightarrow> queue" where
  "onerror e s = s\<lparr>q_onerror := q_onerror s @ [e]\<rparr>"

text \<open>
  The queue as \<^verbatim>\<open>peek\<close> and \<^verbatim>\<open>_truncate\<close> list it: the entries of the directory whose
  names match, sorted.
\<close>

definition listing :: "queue \<Rightarrow> string list" where
  "listing s = sort (filter filenameRe (entries (q_path s) s))"

definition init :: "queue \<Rightarrow> (error + unit) \<times> queue" where
  "init s =
     (case getInfoAsync (q_path s) s of
        (Inl e, s1) \<Rightarrow> (Inl e, s1)
      | (Inr (exists, isDirectory), s1) \<Rightarrow>
          if exists \<and> isDirectory then (Inr (), s1)
          else makeDirectoryAsync (q_path s) s1)"

definition remove :: "string \<Rightarrow> queue \<Rightarrow> queue" where
  "remove ident s =
     (case deleteAsync ident s of
        (Inl e, s1) \<Rightarrow> onerror e s1
      | (Inr _, s1) \<Rightarrow> s1)"

text \<open>
  \<^verbatim>\<open>_truncate\<close>. \<^verbatim>\<open>Promise.all\<close> over the mapped list starts the removals in the order
  of the list, and none of them rejects.
\<close>

definition q_truncate :: "queue \<Rightarrow> queue" where
  "q_truncate s =
     (if q_truncating s then s
      else
        case readDirectoryAsync (q_path s) (s\<lparr>q_truncating := True\<rparr>) of
          (Inl e, s1) \<Rightarrow> onerror e (s1\<lparr>q_truncating := False\<rparr>)
        | (Inr names, s1) \<Rightarrow>
            let payloads = sort (filter filenameRe names);
                diff = int (length payloads) - MAX_ITEMS
            in if diff < 0 then s1\<lparr>q_truncating := False\<rparr>
               else (fold (\<lambda>f. remove (q_path s @ ''/'' @ f)) (take (nat diff) payloads) s1)
                      \<lparr>q_truncating := False\<rparr>)"

text \<open>
  \<^verbatim>\<open>enqueue\<close> starts \<^verbatim>\<open>_truncate\<close> without awaiting it; the pass it starts is modelled
  as finishing before the next method is called.
\<close>

definition enqueue :: "date \<Rightarrow> (nat \<Rightarrow> nat) \<Rightarrow> json \<Rightarrow> queue \<Rightarrow> queue" where
  "enqueue now rnd req s =
     (case init s of
        (Inl e, s1) \<Rightarrow> onerror e s1
      | (Inr _, s1) \<Rightarrow>
          (case writeAsStringAsync (q_path s @ ''/'' @ generateFilename (q_resource s) now rnd)
                  (JSON_stringify (with_retries_0 req)) s1 of
             (Inl e, s2) \<Rightarrow> onerror e s2
           | (Inr _, s2) \<Rightarrow> q_truncate s2))"

text \<open>
  One pass through the body of \<^verbatim>\<open>peek\<close>: it ends with the value to return
  (\<open>None\<close> for \<^verbatim>\<open>null\<close>), or in the inner \<^verbatim>\<open>catch\<close> after \<^verbatim>\<open>remove\<close>, where
  \<^verbatim>\<open>peek\<close> calls itself.
\<close>

datatype outcome = Return "(string \<times> json) option" | PeekAgain

definition peek_body :: "queue \<Rightarrow> outcome \<times> queue" where
  "peek_body s =
     (case readDirectoryAsync (q_path s) s of
        (Inl e, s1) \<Rightarrow> (Return None, onerror e s1)
      | (Inr payloads, s1) \<Rightarrow>
          (case sort (filter filenameRe payloads) of
             [] \<Rightarrow> (Return None, s1)
           | payloadFileName # _ \<Rightarrow>
               let ident = q_path s @ ''/'' @ payloadFileName
               in (case readAsStringAsync ident s1 of
                     (Inl e, s2) \<Rightarrow> (PeekAgain, remove ident s2)
                   | (Inr payloadJson, s2) \<Rightarrow>
                       (case JSON_parse payloadJson of
                          Inl e \<Rightarrow> (PeekAgain, remove ident s2)
                        | Inr payload \<Rightarrow> (Return (Some (ident, payload)), s2)))))"

text \<open>\<^verbatim>\<open>peek\<close> may call itself for ever; \<open>None\<close> is the call that never returns.\<close>

partial_function (option) peek :: "queue \<Rightarrow> ((string \<times> json) option \<times> queue) option" where
  "peek s =
     (case peek_body s of
        (Return r, s1) \<Rightarrow> Some (r, s1)
      | (PeekAgain, s1) \<Rightarrow> peek s1)"

text \<open>\<^verbatim>\<open>peek\<close> allowed to call itself at most \<open>n\<close> times.\<close>

primrec peek_within :: "nat \<Rightarrow> queue \<Rightarrow> ((string \<times> json) option \<times> queue) option" where
  "peek_within 0 s =
     (case peek_body s of
        (Return r, s1) \<Rightarrow> Some (r, s1)
      | (PeekAgain, s1) \<Rightarrow> None)"
| "peek_within (Suc n) s =
     (case peek_body s of
        (Return r, s1) \<Rightarrow> Some (r, s1)
      | (PeekAgain, s1) \<Rightarrow> peek_within n s1)"

definition update :: "string \<Rightarrow> json \<Rightarrow> queue \<Rightarrow> queue" where
  "update ident updates s =
     (case readAsStringAsync ident s of
        (Inl e, s1) \<Rightarrow> onerror e s1
      | (Inr payloadJson, s1) \<Rightarrow>
          (case JSON_parse payloadJson of
             Inl e \<Rightarrow> onerror e s1
           | Inr payload \<Rightarrow>
               (case writeAsStringAsync ident (JSON_stringify (shallow_merge payload updates)) s1 of
                  (Inl e, s2) \<Rightarrow> onerror e s2
                | (Inr _, s2) \<Rightarrow> s2)))"

text \<open>Something, a file or a directory, is at path \<open>p\<close>.\<close>

definition present :: "string \<Rightarrow> queue \<Rightarrow> bool" where
  "present p s = (map_of (files s) p \<noteq> None \<or> p \<in> set (dirs s))"

text \<open>The property \<^verbatim>\<open>retries\<close> of a value, if it has one.\<close>

definition retries :: "json \<Rightarrow> json option" where
  "retries v = map_of (spread v) ''retries''"



text \<open>A character that is neither a line terminator nor a slash.\<close>

definition plain :: "char \<Rightarrow> bool" where
  "plain c = (\<not> line_terminator c \<and> c \<noteq> CHR ''/'')"

text \<open>The two kinds of error that a failed listing and a failed delete produce.\<close>

fun listing_or_delete_failure :: "error \<Rightarrow> bool" where
  "listing_or_delete_failure (FsError (ReadDirectory p)) = True"
| "listing_or_delete_failure (FsError (Delete p)) = True"
| "listing_or_delete_failure e = False"



text \<open>
  A queue in working order that holds exactly the records \<open>G\<close>, oldest name first:
  nothing fails, no pass is running, the resource name is plain, the directory exists
  (or can be made, while the queue is empty), the listing is the names of \<open>G\<close> in
  strictly increasing order, and each file holds its record.
\<close>

definition stored :: "queue \<Rightarrow> (string \<times> json) list \<Rightarrow> bool" where
  "stored s G \<longleftrightarrow>
     io_fault s = no_faults \<and> \<not> q_truncating s \<and> list_all plain (q_resource s)
     \<and> (q_path s \<in> set (dirs s) \<or> (map_of (files s) (q_path s) = None \<and> G = []))
     \<and> listing s = map fst G \<and> sorted_wrt (<) (map fst G)
     \<and> (\<forall>(n, v) \<in> set G. map_of (files s) (q_path s @ CHR ''/'' # n) = Some (Json v))"




subsection \<open>Example stores\<close>

text \<open>
  A queue for the resource \<^verbatim>\<open>events\<close> under the cache directory \<^verbatim>\<open>cache/\<close>, whose
  directory exists, with given files and faults; and two file names as \<^verbatim>\<open>enqueue\<close>
  generates them. \<open>delete_fails\<close> is the file system on which every delete fails.
\<close>

definition delete_fails :: "nat \<Rightarrow> fs_op \<Rightarrow> bool" where
  "delete_fails n op = (case op of Delete _ \<Rightarrow> True | _ \<Rightarrow> False)"

definition ex_fs :: "(string \<times> file_text) list \<Rightarrow> (nat \<Rightarrow> fs_op \<Rightarrow> bool) \<Rightarrow> filesystem" where
  "ex_fs fl flt = \<lparr>dirs = [''cache/bugsnag/events''], files = fl, io_fault = flt, io_count = 0\<rparr>"

definition ex_queue :: "(string \<times> file_text) list \<Rightarrow> (nat \<Rightarrow> fs_op \<Rightarrow> bool) \<Rightarrow> queue" where
  "ex_queue fl flt = UndeliveredPayloadQueue ''cache/'' ''events'' (ex_fs fl flt)"

definition ex_a :: string where "ex_a = ''bugsnag-events-2019-03-07T09:05:01.042Z-5550123456789012.json''"
definition ex_b :: string where "ex_b = ''bugsnag-events-2019-03-07T09:05:02.511Z-0412345678901234.json''"


definition ex_heal :: queue where
  "ex_heal = ex_queue [(''cache/bugsnag/events/'' @ ex_b, Json (JObj [(''retries'', JNum 0)])),
                       (''cache/bugsnag/events/'' @ ex_a, Corrupt ''{'')] no_faults"

definition ex_one :: queue where
  "ex_one = ex_queue [(''cache/bugsnag/events/'' @ ex_a, Json (JObj [(''retries'', JNum 0)]))] no_faults"

definition ex_corrupt :: queue where
  "ex_corrupt = ex_queue [(''cache/bugsnag/events/'' @ ex_a, Corrupt ''{'')] no_faults"

definition ex_stuck :: queue where
  "ex_stuck = ex_queue [(''cache/bugsnag/events/'' @ ex_a, Corrupt ''{'')] delete_fails"

definition ex_stuck_two :: queue where
  "ex_stuck_two = ex_queue [(''cache/bugsnag/events/'' @ ex_b, Json (JObj [(''retries'', JNum 0)])),
                           (''cache/bugsnag/events/'' @ ex_a, Corrupt ''{'')] delete_fails"

definition ex_fresh :: queue where
  "ex_fresh = UndeliveredPayloadQueue ''cache/'' ''events''
     \<lparr>dirs = [], files = [], io_fault = no_faults, io_count = 0\<rparr>"

definition ex_now :: date where
  "ex_now = \<lparr>year = 2019, month = 3, day = 7, hours = 9, minutes = 5, seconds = 1, milliseconds = 42\<rparr>"

definition ex_rnd :: "nat \<Rightarrow> nat" where
  "ex_rnd i = (7 * i + 3) mod 10"

definition ex_retried :: queue where
  "ex_retried = ex_queue [(''cache/bugsnag/events/'' @ ex_a,
       Json (JObj [(''body'', JStr ''report''), (''retries'', JNum 3)]))] no_faults"

definition ex_notes :: queue where
  "ex_notes = ex_queue [(''cache/bugsnag/events/notes.txt'', Corrupt ''to do'')] no_faults"











section \<open>Properties of the model\<close>

subsection \<open>Record fields across the helpers\<close>

lemma tick_fields [simp]:
  "dirs (tick s) = dirs s" "files (tick s) = files s" "io_fault (tick s) = io_fault s"
  "io_count (tick s) = Suc (io_count s)"
  by (simp_all add: tick_def)

lemma tick_queue_fields [simp]:
  "q_resource (tick s) = q_resource s" "q_path (tick s) = q_path s"
  "q_onerror (tick s) = q_onerror s" "q_truncating (tick s) = q_truncating s"
  by (simp_all add: tick_def)

lemma onerror_fields [simp]:
  "dirs (onerror e s) = dirs s" "files (onerror e s) = files s" "io_fault (onerror e s) = io_fault s"
  "io_count (onerror e s) = io_count s"
  "q_resource (onerror e s) = q_resource s" "q_path (onerror e s) = q_path s"
  "q_onerror (onerror e s) = q_onerror s @ [e]" "q_truncating (onerror e s) = q_truncating s"
  by (simp_all add: onerror_def)

lemma entries_cong [simp]:
  "entries d (tick s) = entries d s" "entries d (onerror e s) = entries d s"
  "entries d (s\<lparr>q_truncating := b\<rparr>) = entries d s"
  by (simp_all add: entries_def)

lemma listing_cong [simp]:
  "listing (tick s) = listing s" "listing (onerror e s) = listing s"
  "listing (s\<lparr>q_truncating := b\<rparr>) = listing s"
  by (simp_all add: listing_def)

lemma faulted_no_faults [simp]: "io_fault s = no_faults \<Longrightarrow> \<not> faulted op s"
  by (simp add: faulted_def no_faults_def)

subsection \<open>Paths\<close>

lemma child_name_append [simp]:
  "child_name d (d @ CHR ''/'' # n) = (if CHR ''/'' \<in> set n then None else Some n)"
  by (simp add: child_name_def)

lemma child_name_SomeD: "child_name d p = Some n \<Longrightarrow> p = d @ CHR ''/'' # n \<and> CHR ''/'' \<notin> set n"
  unfolding child_name_def Let_def
  by (metis append_take_drop_id option.distinct(1) option.inject append.assoc append_Cons append_Nil)

lemma child_name_beneath:
  assumes "beneath (d @ CHR ''/'' # n) f" shows "child_name d f = None"
proof (cases "child_name d f")
  case (Some m)
  then have f: "f = d @ CHR ''/'' # m" and m: "CHR ''/'' \<notin> set m"
    using child_name_SomeD by blast+
  from assms have "take (Suc (length n)) m = n @ ''/''"
    unfolding beneath_def f by simp
  then have "CHR ''/'' \<in> set (take (Suc (length n)) m)" by simp
  with m show ?thesis by (meson in_set_takeD)
qed simp

lemma not_beneath_self_parent [simp]: "\<not> beneath (d @ CHR ''/'' # n) d" "d \<noteq> d @ CHR ''/'' # n"
  by (auto simp: beneath_def dest: arg_cong[where f=length])

lemma map_filter_child_delete:
  assumes "CHR ''/'' \<notin> set n"
  shows "List.map_filter (child_name d) (filter (\<lambda>f. f \<noteq> d @ CHR ''/'' # n \<and> \<not> beneath (d @ CHR ''/'' # n) f) xs)
         = filter (\<lambda>m. m \<noteq> n) (List.map_filter (child_name d) xs)"
proof (induction xs)
  case Nil
  show ?case by simp
next
  case (Cons x xs)
  show ?case
  proof (cases "child_name d x")
    case None
    with Cons show ?thesis by simp
  next
    case (Some m)
    then have x: "x = d @ CHR ''/'' # m" and m: "CHR ''/'' \<notin> set m"
      using child_name_SomeD by blast+
    have nb: "\<not> beneath (d @ CHR ''/'' # n) x"
      using child_name_beneath Some by fastforce
    show ?thesis using Cons Some nb x by auto
  qed
qed

lemma map_fst_filter_fst:
  "map fst (filter (\<lambda>(f, t). Q f) xs) = filter Q (map fst xs)"
  by (induction xs) auto

lemma map_of_filter_fst:
  "map_of (filter (\<lambda>(f, t). Q f) xs) k = (if Q k then map_of xs k else None)"
  by (induction xs) auto

subsection \<open>remove\<close>

lemma remove_frame [simp]:
  "q_resource (remove p s) = q_resource s" "q_path (remove p s) = q_path s"
  "q_truncating (remove p s) = q_truncating s" "io_fault (remove p s) = io_fault s"
  "io_count (remove p s) = Suc (io_count s)"
  by (simp_all add: remove_def deleteAsync_def)

lemma fold_remove_frame [simp]:
  "q_truncating (fold (\<lambda>f. remove (g f)) fs s) = q_truncating s"
  "q_path (fold (\<lambda>f. remove (g f)) fs s) = q_path s"
  "q_resource (fold (\<lambda>f. remove (g f)) fs s) = q_resource s"
  "io_fault (fold (\<lambda>f. remove (g f)) fs s) = io_fault s"
  by (induction fs arbitrary: s) simp_all


lemma remove_ok:
  assumes "\<not> faulted (Delete p) s" "present p s"
  shows "files (remove p s) = filter (\<lambda>(f, t). f \<noteq> p \<and> \<not> beneath p f) (files s)"
    and "dirs (remove p s) = filter (\<lambda>d. d \<noteq> p \<and> \<not> beneath p d) (dirs s)"
    and "q_onerror (remove p s) = q_onerror s"
  using assms by (auto simp: remove_def deleteAsync_def present_def)

lemma remove_failed:
  assumes "faulted (Delete p) s \<or> \<not> present p s"
  shows "files (remove p s) = files s" "dirs (remove p s) = dirs s"
    "q_onerror (remove p s) = q_onerror s @ [FsError (Delete p)]"
  using assms by (auto simp: remove_def deleteAsync_def present_def)

lemma remove_again:
  assumes "\<not> faulted (Delete p) s" and "present p s"
  shows "q_onerror (remove p s) = q_onerror s"
    and "files (remove p (remove p s)) = files (remove p s)"
    and "dirs (remove p (remove p s)) = dirs (remove p s)"
    and "q_onerror (remove p (remove p s)) = q_onerror s @ [FsError (Delete p)]"
proof -
  let ?s1 = "remove p s"
  note ok = remove_ok[OF assms]
  have gone: "\<not> present p ?s1"
    unfolding present_def ok by (auto simp: map_of_eq_None_iff)
  then have "faulted (Delete p) ?s1 \<or> \<not> present p ?s1" ..
  note failed = remove_failed[OF this]
  show "q_onerror ?s1 = q_onerror s" by (rule ok(3))
  show "files (remove p ?s1) = files ?s1" by (rule failed(1))
  show "dirs (remove p ?s1) = dirs ?s1" by (rule failed(2))
  show "q_onerror (remove p ?s1) = q_onerror s @ [FsError (Delete p)]"
    using failed(3) ok(3) by simp
qed

lemma in_entries_present:
  assumes "n \<in> set (entries d s)" shows "present (d @ CHR ''/'' # n) s"
proof -
  from assms have "\<exists>p \<in> set (map fst (files s) @ dirs s). child_name d p = Some n"
    by (force simp: entries_def List.map_filter_def)
  then obtain p where p: "p \<in> set (map fst (files s) @ dirs s)" "child_name d p = Some n"
    by blast
  then have "p = d @ CHR ''/'' # n" using child_name_SomeD by blast
  with p(1) show ?thesis
    by (auto simp: present_def map_of_eq_None_iff)
qed

lemma entries_no_slash: "n \<in> set (entries d s) \<Longrightarrow> CHR ''/'' \<notin> set n"
  by (auto simp: entries_def List.map_filter_def dest: child_name_SomeD)

lemma entries_remove_ok:
  assumes "\<not> faulted (Delete (d @ CHR ''/'' # n)) s" "present (d @ CHR ''/'' # n) s" "CHR ''/'' \<notin> set n"
  shows "entries d (remove (d @ CHR ''/'' # n) s) = filter (\<lambda>m. m \<noteq> n) (entries d s)"
  unfolding entries_def remove_ok[OF assms(1,2)]
  by (simp add: map_fst_filter_fst map_filter_child_delete[OF assms(3)] flip: filter_append)

lemma listing_remove_ok:
  assumes "\<not> faulted (Delete (q_path s @ CHR ''/'' # n)) s" "present (q_path s @ CHR ''/'' # n) s"
    "CHR ''/'' \<notin> set n"
  shows "listing (remove (q_path s @ CHR ''/'' # n) s) = filter (\<lambda>m. m \<noteq> n) (listing s)"
  unfolding listing_def
  by (simp add: entries_remove_ok[OF assms] filter_sort) (metis filter_filter conj_commute)

subsection \<open>One pass through peek\<close>

lemma peek_body_nodir:
  assumes "faulted (ReadDirectory (q_path s)) s \<or> q_path s \<notin> set (dirs s)"
  shows "peek_body s = (Return None, onerror (FsError (ReadDirectory (q_path s))) (tick s))"
  using assms by (auto simp: peek_body_def readDirectoryAsync_def)

lemma peek_body_empty:
  assumes "\<not> faulted (ReadDirectory (q_path s)) s" "q_path s \<in> set (dirs s)" "listing s = []"
  shows "peek_body s = (Return None, tick s)"
  using assms by (simp add: peek_body_def readDirectoryAsync_def listing_def)

lemma peek_body_valid:
  assumes "\<not> faulted (ReadDirectory (q_path s)) s" "q_path s \<in> set (dirs s)"
    and "listing s = n # rest"
    and "\<not> faulted (ReadAsString (q_path s @ CHR ''/'' # n)) (tick s)"
    and "map_of (files s) (q_path s @ CHR ''/'' # n) = Some (Json v)"
  shows "peek_body s = (Return (Some (q_path s @ CHR ''/'' # n, v)), tick (tick s))"
  using assms
  by (simp add: peek_body_def readDirectoryAsync_def listing_def readAsStringAsync_def JSON_parse_def)

lemma peek_body_heal:
  assumes "\<not> faulted (ReadDirectory (q_path s)) s" "q_path s \<in> set (dirs s)"
    and "listing s = n # rest"
    and "faulted (ReadAsString (q_path s @ CHR ''/'' # n)) (tick s)
         \<or> (\<forall>v. map_of (files s) (q_path s @ CHR ''/'' # n) \<noteq> Some (Json v))"
  shows "peek_body s = (PeekAgain, remove (q_path s @ CHR ''/'' # n) (tick (tick s)))"
proof (cases "faulted (ReadAsString (q_path s @ CHR ''/'' # n)) (tick s)")
  case True
  with assms(1-3) show ?thesis
    by (simp add: peek_body_def readDirectoryAsync_def listing_def readAsStringAsync_def)
next
  case False
  with assms(4) have nv: "\<forall>v. map_of (files s) (q_path s @ CHR ''/'' # n) \<noteq> Some (Json v)" by simp
  show ?thesis
  proof (cases "map_of (files s) (q_path s @ CHR ''/'' # n)")
    case None
    with assms(1-3) False show ?thesis
      by (simp add: peek_body_def readDirectoryAsync_def listing_def readAsStringAsync_def)
  next
    case (Some t)
    with nv obtain c where "t = Corrupt c" by (cases t) auto
    with Some assms(1-3) False show ?thesis
      by (simp add: peek_body_def readDirectoryAsync_def listing_def readAsStringAsync_def JSON_parse_def)
  qed
qed

lemma listing_head_facts:
  assumes "listing s = n # rest"
  shows "n \<in> set (entries (q_path s) s)" "CHR ''/'' \<notin> set n" "present (q_path s @ CHR ''/'' # n) s"
    "filenameRe n"
proof -
  have "n \<in> set (listing s)" using assms by simp
  then show n: "n \<in> set (entries (q_path s) s)" and "filenameRe n" by (simp_all add: listing_def)
  from n show "CHR ''/'' \<notin> set n" by (rule entries_no_slash)
  from n show "present (q_path s @ CHR ''/'' # n) s" by (rule in_entries_present)
qed

lemma present_cong [simp]: "present p (tick s) = present p s" "present p (onerror e s) = present p s"
  by (simp_all add: present_def)

lemma peek_within_mono:
  "peek_within n s = Some x \<Longrightarrow> n \<le> m \<Longrightarrow> peek_within m s = Some x"
proof (induction n arbitrary: m s)
  case 0
  then show ?case by (cases m) (auto split: prod.splits outcome.splits)
next
  case (Suc n)
  then obtain m' where m: "m = Suc m'" "n \<le> m'" by (cases m) auto
  with Suc show ?case by (auto split: prod.splits outcome.splits)
qed

lemma peek_within_peek: "peek_within n s = Some x \<Longrightarrow> peek s = Some x"
proof (induction n arbitrary: s)
  case 0
  then show ?case by (subst peek.simps) (auto split: prod.splits outcome.splits)
next
  case (Suc n)
  then show ?case by (subst peek.simps) (auto split: prod.splits outcome.splits)
qed

text \<open>What a self-healing step leaves behind when its delete does not fail.\<close>

lemma heal_step:
  assumes nft: "\<not> faulted (Delete (q_path s @ CHR ''/'' # n)) (tick (tick s))"
    and dir: "q_path s \<in> set (dirs s)"
    and l: "listing s = n # rest"
  defines "s1 \<equiv> remove (q_path s @ CHR ''/'' # n) (tick (tick s))"
  shows "io_fault s1 = io_fault s" "q_path s1 = q_path s" "q_path s1 \<in> set (dirs s1)"
    "listing s1 = filter (\<lambda>m. m \<noteq> n) (listing s)" "q_onerror s1 = q_onerror s"
    "map_of (files s1) (q_path s @ CHR ''/'' # n) = None" "q_path s @ CHR ''/'' # n \<notin> set (dirs s1)"
    "\<And>m. m \<noteq> n \<Longrightarrow> CHR ''/'' \<notin> set m \<Longrightarrow>
       map_of (files s1) (q_path s @ CHR ''/'' # m) = map_of (files s) (q_path s @ CHR ''/'' # m)"
proof -
  let ?t = "tick (tick s)" and ?p = "q_path s @ CHR ''/'' # n"
  have pr: "present ?p ?t" using listing_head_facts(3)[OF l] by simp
  have ns: "CHR ''/'' \<notin> set n" using listing_head_facts(2)[OF l] .
  note ok = remove_ok[OF nft pr]
  show "io_fault s1 = io_fault s" "q_path s1 = q_path s" by (simp_all add: s1_def)
  show "q_path s1 \<in> set (dirs s1)" using dir by (simp add: s1_def ok)
  show "listing s1 = filter (\<lambda>m. m \<noteq> n) (listing s)"
    using listing_remove_ok[where s = ?t and n = n] nft pr ns by (simp add: s1_def)
  show "q_onerror s1 = q_onerror s" by (simp add: s1_def ok)
  show "map_of (files s1) ?p = None" by (simp add: s1_def ok map_of_filter_fst)
  show "?p \<notin> set (dirs s1)" by (simp add: s1_def ok)
  show "map_of (files s1) (q_path s @ CHR ''/'' # m) = map_of (files s) (q_path s @ CHR ''/'' # m)"
    if "m \<noteq> n" "CHR ''/'' \<notin> set m" for m
  proof -
    have "child_name (q_path s) (q_path s @ CHR ''/'' # m) = Some m" using that by simp
    then have "\<not> beneath ?p (q_path s @ CHR ''/'' # m)"
      using child_name_beneath by fastforce
    then show ?thesis using that by (simp add: s1_def ok map_of_filter_fst)
  qed
qed

text \<open>What it leaves behind when the delete fails: the same store.\<close>

lemma heal_step_failed:
  assumes "faulted (Delete (q_path s @ CHR ''/'' # n)) (tick (tick s))"
  defines "s1 \<equiv> remove (q_path s @ CHR ''/'' # n) (tick (tick s))"
  shows "io_fault s1 = io_fault s" "q_path s1 = q_path s" "dirs s1 = dirs s" "files s1 = files s"
    "listing s1 = listing s"
    "q_onerror s1 = q_onerror s @ [FsError (Delete (q_path s @ CHR ''/'' # n))]"
proof -
  have f: "faulted (Delete (q_path s @ CHR ''/'' # n)) (tick (tick s))
           \<or> \<not> present (q_path s @ CHR ''/'' # n) (tick (tick s))"
    using assms(1) ..
  note failed = remove_failed[OF f]
  show "io_fault s1 = io_fault s" "q_path s1 = q_path s" by (simp_all add: s1_def)
  show d: "dirs s1 = dirs s" and fl: "files s1 = files s" using failed by (simp_all add: s1_def)
  show "listing s1 = listing s" using d fl by (simp add: listing_def entries_def s1_def)
  show "q_onerror s1 = q_onerror s @ [FsError (Delete (q_path s @ CHR ''/'' # n))]"
    using failed by (simp add: s1_def)
qed

text \<open>
  When no delete fails, \<^verbatim>\<open>peek\<close> returns after calling itself at most as many times as
  the queue is long; when nothing fails at all it never calls the error callback.
\<close>

lemma peek_returns:
  assumes "\<forall>k p. \<not> io_fault s k (Delete p)"
  shows "\<exists>r s'. peek_within (length (listing s)) s = Some (r, s') \<and>
           (io_fault s = no_faults \<longrightarrow> q_path s \<in> set (dirs s) \<longrightarrow> q_onerror s' = q_onerror s)"
  using assms
proof (induction "length (listing s)" arbitrary: s rule: less_induct)
  case less
  show ?case
  proof (cases "faulted (ReadDirectory (q_path s)) s \<or> q_path s \<notin> set (dirs s)")
    case True
    from peek_body_nodir[OF True] have
      "peek_within (length (listing s)) s
         = Some (None, onerror (FsError (ReadDirectory (q_path s))) (tick s))"
      by (cases "length (listing s)") simp_all
    moreover have "\<not> (io_fault s = no_faults \<and> q_path s \<in> set (dirs s))"
      using True by auto
    ultimately show ?thesis by auto
  next
    case False
    then have nrd: "\<not> faulted (ReadDirectory (q_path s)) s" and dir: "q_path s \<in> set (dirs s)"
      by simp_all
    show ?thesis
    proof (cases "listing s")
      case Nil
      then show ?thesis
        using peek_body_empty[OF nrd dir Nil] by simp
    next
      case (Cons n rest)
      let ?p = "q_path s @ CHR ''/'' # n"
      show ?thesis
      proof (cases "faulted (ReadAsString ?p) (tick s) \<or> (\<forall>v. map_of (files s) ?p \<noteq> Some (Json v))")
        case False
        then obtain v where "\<not> faulted (ReadAsString ?p) (tick s)" "map_of (files s) ?p = Some (Json v)"
          by auto
        from peek_body_valid[OF nrd dir Cons this]
        show ?thesis by (cases "length (listing s)") simp_all
      next
        case True
        let ?s1 = "remove ?p (tick (tick s))"
        have pb: "peek_body s = (PeekAgain, ?s1)"
          by (rule peek_body_heal[OF nrd dir Cons True])
        have nft: "\<not> faulted (Delete ?p) (tick (tick s))"
          using less.prems by (simp add: faulted_def)
        note h = heal_step[OF nft dir Cons]
        have len: "length (listing ?s1) < length (listing s)"
          unfolding h(4) Cons by (simp add: le_imp_less_Suc)
        have "\<forall>k p. \<not> io_fault ?s1 k (Delete p)" using less.prems h(1) by simp
        from less.hyps[OF len this] obtain r s' where
          r: "peek_within (length (listing ?s1)) ?s1 = Some (r, s')"
             "io_fault ?s1 = no_faults \<longrightarrow> q_path ?s1 \<in> set (dirs ?s1) \<longrightarrow> q_onerror s' = q_onerror ?s1"
          by auto
        obtain k where k: "length (listing s) = Suc k" using Cons by simp
        with len have "length (listing ?s1) \<le> k" by simp
        from peek_within_mono[OF r(1) this] have "peek_within (Suc k) s = Some (r, s')"
          using pb by simp
        with r(2) h(1,3,5) k show ?thesis by simp
      qed
    qed
  qed
qed

text \<open>\<^verbatim>\<open>peek\<close> returns exactly when some number of calls to itself is enough.\<close>

lemma peek_peek_within:
  assumes "peek s = Some x" shows "\<exists>k. peek_within k s = Some x"
proof (rule peek.raw_induct[where P = "\<lambda>s x. \<exists>k. peek_within k s = Some x", OF _ assms])
  fix peek' :: "queue \<Rightarrow> ((string \<times> json) option \<times> queue) option" and s x
  assume IH: "\<And>s x. peek' s = Some x \<Longrightarrow> \<exists>k. peek_within k s = Some x"
    and eq: "(case peek_body s of (Return r, s1) \<Rightarrow> Some (r, s1) | (PeekAgain, s1) \<Rightarrow> peek' s1) = Some x"
  obtain out s1 where pb: "peek_body s = (out, s1)" by (cases "peek_body s")
  show "\<exists>k. peek_within k s = Some x"
  proof (cases out)
    case (Return r)
    with eq pb have "peek_within 0 s = Some x" by simp
    then show ?thesis ..
  next
    case PeekAgain
    with eq pb have "peek' s1 = Some x" by simp
    from IH[OF this] obtain k where "peek_within k s1 = Some x" ..
    with PeekAgain pb have "peek_within (Suc k) s = Some x" by simp
    then show ?thesis ..
  qed
qed

text \<open>A corrupt oldest entry whose delete always fails: \<^verbatim>\<open>peek\<close> never returns.\<close>

lemma stuck_within:
  assumes "io_fault s = delete_fails" "q_path s \<in> set (dirs s)" "listing s = n # rest"
    and "\<forall>v. map_of (files s) (q_path s @ CHR ''/'' # n) \<noteq> Some (Json v)"
  shows "peek_within k s = None"
  using assms
proof (induction k arbitrary: s)
  case 0
  have nrd: "\<not> faulted (ReadDirectory (q_path s)) s"
    using 0(1) by (simp add: faulted_def delete_fails_def)
  from peek_body_heal[OF nrd 0(2,3)] 0(4) show ?case by simp
next
  case (Suc k)
  let ?p = "q_path s @ CHR ''/'' # n" and ?s1 = "remove (q_path s @ CHR ''/'' # n) (tick (tick s))"
  have nrd: "\<not> faulted (ReadDirectory (q_path s)) s"
    using Suc.prems(1) by (simp add: faulted_def delete_fails_def)
  have pb: "peek_body s = (PeekAgain, ?s1)"
    using peek_body_heal[OF nrd Suc.prems(2,3)] Suc.prems(4) by simp
  have "faulted (Delete ?p) (tick (tick s))"
    using Suc.prems(1) by (simp add: faulted_def delete_fails_def)
  note h = heal_step_failed[OF this]
  have "peek_within k ?s1 = None"
    by (rule Suc.IH) (use h Suc.prems in simp_all)
  with pb show ?case by simp
qed

lemma stuck_forever:
  assumes "io_fault s = delete_fails" "q_path s \<in> set (dirs s)" "listing s = n # rest"
    and "\<forall>v. map_of (files s) (q_path s @ CHR ''/'' # n) \<noteq> Some (Json v)"
  shows "peek s = None"
proof (cases "peek s")
  case (Some x)
  from peek_peek_within[OF this] stuck_within[OF assms] show ?thesis by auto
qed simp

subsection \<open>What peek reports\<close>

lemma remove_reports:
  "q_onerror (remove p s) = q_onerror s \<or> q_onerror (remove p s) = q_onerror s @ [FsError (Delete p)]"
  by (simp add: remove_def deleteAsync_def)

lemma peek_body_reports:
  assumes "peek_body s = (out, s1)"
  shows "\<exists>es. q_onerror s1 = q_onerror s @ es \<and> list_all listing_or_delete_failure es"
proof (cases "faulted (ReadDirectory (q_path s)) s \<or> q_path s \<notin> set (dirs s)")
  case True
  from peek_body_nodir[OF True] assms
  have "q_onerror s1 = q_onerror s @ [FsError (ReadDirectory (q_path s))]" by auto
  then show ?thesis by simp
next
  case False
  then have nrd: "\<not> faulted (ReadDirectory (q_path s)) s" and dir: "q_path s \<in> set (dirs s)"
    by simp_all
  show ?thesis
  proof (cases "listing s")
    case Nil
    from peek_body_empty[OF nrd dir Nil] assms have "q_onerror s1 = q_onerror s @ []" by auto
    then show ?thesis by (intro exI[of _ "[]"]) simp
  next
    case (Cons n rest)
    let ?p = "q_path s @ CHR ''/'' # n"
    show ?thesis
    proof (cases "faulted (ReadAsString ?p) (tick s) \<or> (\<forall>v. map_of (files s) ?p \<noteq> Some (Json v))")
      case False
      then obtain v where "\<not> faulted (ReadAsString ?p) (tick s)" "map_of (files s) ?p = Some (Json v)"
        by auto
      from peek_body_valid[OF nrd dir Cons this] assms have "q_onerror s1 = q_onerror s @ []" by auto
      then show ?thesis by (intro exI[of _ "[]"]) simp
    next
      case True
      from peek_body_heal[OF nrd dir Cons True] assms
      have s1: "s1 = remove ?p (tick (tick s))" by simp
      from remove_reports[of ?p "tick (tick s)"]
      have "q_onerror s1 = q_onerror s @ [] \<or> q_onerror s1 = q_onerror s @ [FsError (Delete ?p)]"
        by (simp add: s1)
      then show ?thesis
      proof
        assume "q_onerror s1 = q_onerror s @ []"
        then show ?thesis by (intro exI[of _ "[]"]) simp
      next
        assume "q_onerror s1 = q_onerror s @ [FsError (Delete ?p)]"
        then show ?thesis by simp
      qed
    qed
  qed
qed

lemma peek_reports_only:
  assumes "peek s = Some x"
  shows "\<exists>es. q_onerror (snd x) = q_onerror s @ es \<and> list_all listing_or_delete_failure es"
proof (rule peek.raw_induct[where P = "\<lambda>s x. \<exists>es. q_onerror (snd x) = q_onerror s @ es
         \<and> list_all listing_or_delete_failure es", OF _ assms])
  fix peek' :: "queue \<Rightarrow> ((string \<times> json) option \<times> queue) option" and s x
  assume IH: "\<And>s x. peek' s = Some x \<Longrightarrow>
      \<exists>es. q_onerror (snd x) = q_onerror s @ es \<and> list_all listing_or_delete_failure es"
    and eq: "(case peek_body s of (Return r, s1) \<Rightarrow> Some (r, s1) | (PeekAgain, s1) \<Rightarrow> peek' s1) = Some x"
  obtain out s1 where pb: "peek_body s = (out, s1)" by (cases "peek_body s")
  from peek_body_reports[OF pb] obtain es1 where
    es1: "q_onerror s1 = q_onerror s @ es1" "list_all listing_or_delete_failure es1" by blast
  show "\<exists>es. q_onerror (snd x) = q_onerror s @ es \<and> list_all listing_or_delete_failure es"
  proof (cases out)
    case (Return r)
    with eq pb have "snd x = s1" by auto
    with es1 show ?thesis by blast
  next
    case PeekAgain
    with eq pb have "peek' s1 = Some x" by simp
    from IH[OF this] obtain es2 where
      "q_onerror (snd x) = q_onerror s1 @ es2" "list_all listing_or_delete_failure es2" by blast
    with es1 have "q_onerror (snd x) = q_onerror s @ (es1 @ es2)"
      "list_all listing_or_delete_failure (es1 @ es2)" by simp_all
    then show ?thesis by blast
  qed
qed

subsection \<open>How remove, update, enqueue and a truncation pass end\<close>

lemma remove_outcome:
  "q_onerror (remove p s) = q_onerror s
   \<or> (q_onerror (remove p s) = q_onerror s @ [FsError (Delete p)]
      \<and> files (remove p s) = files s \<and> dirs (remove p s) = dirs s)"
  by (simp add: remove_def deleteAsync_def)

lemma update_frame [simp]:
  "q_resource (update p u s) = q_resource s" "q_path (update p u s) = q_path s"
  "q_truncating (update p u s) = q_truncating s" "io_fault (update p u s) = io_fault s"
  "dirs (update p u s) = dirs s"
  by (simp_all add: update_def readAsStringAsync_def JSON_parse_def writeAsStringAsync_def
      split: option.split file_text.split)

lemma update_outcome:
  "(\<exists>payload. map_of (files s) p = Some (Json payload)
       \<and> files (update p u s) = AList.update p (Json (shallow_merge payload u)) (files s)
       \<and> q_onerror (update p u s) = q_onerror s)
   \<or> (\<exists>e. q_onerror (update p u s) = q_onerror s @ [e] \<and> files (update p u s) = files s)"
  by (simp add: update_def readAsStringAsync_def JSON_parse_def writeAsStringAsync_def JSON_stringify_def
      split: option.split file_text.split)

lemma init_frame:
  "files (snd (init s)) = files s" "q_onerror (snd (init s)) = q_onerror s"
  "q_truncating (snd (init s)) = q_truncating s" "q_path (snd (init s)) = q_path s"
  "q_resource (snd (init s)) = q_resource s" "io_fault (snd (init s)) = io_fault s"
  "set (dirs s) \<subseteq> set (dirs (snd (init s)))"
  by (auto simp add: init_def getInfoAsync_def makeDirectoryAsync_def Let_def)

lemma enqueue_outcome:
  "(\<exists>e. q_onerror (enqueue now rnd req s) = q_onerror s @ [e]
        \<and> files (enqueue now rnd req s) = files s
        \<and> q_truncating (enqueue now rnd req s) = q_truncating s)
   \<or> (\<exists>s2. enqueue now rnd req s = q_truncate s2
        \<and> files s2 = AList.update (q_path s @ ''/'' @ generateFilename (q_resource s) now rnd)
                        (Json (with_retries_0 req)) (files s)
        \<and> q_onerror s2 = q_onerror s \<and> q_truncating s2 = q_truncating s
        \<and> q_path s2 = q_path s \<and> io_fault s2 = io_fault s)"
proof -
  obtain r s1 where i: "init s = (r, s1)" by (cases "init s")
  note f = init_frame[of s, unfolded i snd_conv]
  show ?thesis
  proof (cases r)
    case (Inl e)
    with i f show ?thesis by (simp add: enqueue_def)
  next
    case (Inr u)
    let ?p = "q_path s @ ''/'' @ generateFilename (q_resource s) now rnd"
    obtain r2 s2 where w: "writeAsStringAsync ?p (JSON_stringify (with_retries_0 req)) s1 = (r2, s2)"
      by (cases "writeAsStringAsync ?p (JSON_stringify (with_retries_0 req)) s1")
    show ?thesis
    proof (cases r2)
      case (Inl e)
      with w have "s2 = tick s1" by (auto simp: writeAsStringAsync_def split: if_splits)
      with Inl Inr i w f show ?thesis by (simp add: enqueue_def)
    next
      case (Inr u2)
      with w have s2: "s2 = tick (s1\<lparr>files := AList.update ?p (Json (with_retries_0 req)) (files s1)\<rparr>)"
        by (auto simp: writeAsStringAsync_def JSON_stringify_def split: if_splits)
      have e: "enqueue now rnd req s = q_truncate s2"
        using Inr \<open>r = Inr u\<close> i w by (simp add: enqueue_def)
      have "files s2 = AList.update ?p (Json (with_retries_0 req)) (files s)"
        "q_onerror s2 = q_onerror s" "q_truncating s2 = q_truncating s"
        "q_path s2 = q_path s" "io_fault s2 = io_fault s"
        using s2 f by simp_all
      with e show ?thesis by blast
    qed
  qed
qed

lemma fold_remove_reports:
  "\<exists>es. q_onerror (fold (\<lambda>f. remove (g f)) fs s) = q_onerror s @ es
        \<and> list_all listing_or_delete_failure es"
proof (induction fs arbitrary: s)
  case Nil
  show ?case by (intro exI[of _ "[]"]) simp
next
  case (Cons f fs)
  from Cons[of "remove (g f) s"] obtain es where
    es: "q_onerror (fold (\<lambda>f. remove (g f)) fs (remove (g f) s)) = q_onerror (remove (g f) s) @ es"
      "list_all listing_or_delete_failure es" by blast
  from remove_reports[of "g f" s] show ?case
  proof
    assume "q_onerror (remove (g f) s) = q_onerror s"
    with es show ?thesis by auto
  next
    assume "q_onerror (remove (g f) s) = q_onerror s @ [FsError (Delete (g f))]"
    with es have "q_onerror (fold (\<lambda>f. remove (g f)) (f # fs) s) = q_onerror s @ (FsError (Delete (g f)) # es)"
      "list_all listing_or_delete_failure (FsError (Delete (g f)) # es)" by simp_all
    then show ?thesis by blast
  qed
qed

lemma truncate_reports:
  "\<exists>es. q_onerror (q_truncate s) = q_onerror s @ es \<and> list_all listing_or_delete_failure es"
proof (cases "q_truncating s")
  case True
  then have "q_onerror (q_truncate s) = q_onerror s @ []" by (simp add: q_truncate_def)
  then show ?thesis by (intro exI[of _ "[]"]) simp
next
  case False
  let ?s0 = "s\<lparr>q_truncating := True\<rparr>"
  show ?thesis
  proof (cases "faulted (ReadDirectory (q_path s)) ?s0 \<or> q_path s \<notin> set (dirs s)")
    case True
    with False have "q_onerror (q_truncate s) = q_onerror s @ [FsError (ReadDirectory (q_path s))]"
      by (auto simp add: q_truncate_def readDirectoryAsync_def)
    then show ?thesis by simp
  next
    case nf: False
    let ?pl = "sort (filter filenameRe (entries (q_path s) ?s0))"
    show ?thesis
    proof (cases "int (length ?pl) - MAX_ITEMS < 0")
      case True
      with False nf have "q_onerror (q_truncate s) = q_onerror s @ []"
        by (simp add: q_truncate_def readDirectoryAsync_def Let_def)
      then show ?thesis by (intro exI[of _ "[]"]) simp
    next
      case ge: False
      let ?k = "nat (int (length ?pl) - MAX_ITEMS)"
      from False nf ge have "q_onerror (q_truncate s)
          = q_onerror (fold (\<lambda>f. remove (q_path s @ ''/'' @ f)) (take ?k ?pl) (tick ?s0))"
        by (simp add: q_truncate_def readDirectoryAsync_def Let_def)
      with fold_remove_reports[of "\<lambda>f. q_path s @ ''/'' @ f" "take ?k ?pl" "tick ?s0"]
      show ?thesis by simp
    qed
  qed
qed

subsection \<open>Stored records: the retry counter and what each method keeps\<close>

lemma put_index_keys: "fst ` set (put_index i k v ps) = insert k (fst ` set ps)"
  by (induction ps) (auto split: option.splits)

lemma map_of_put_index: "k \<notin> fst ` set ps \<Longrightarrow> map_of (put_index i k v ps) = (map_of ps)(k \<mapsto> v)"
proof (induction ps)
  case Nil
  show ?case by simp
next
  case (Cons p ps)
  obtain k' v' where p: "p = (k', v')" by (cases p)
  from Cons.prems p have ne: "k' \<noteq> k" and nk: "k \<notin> fst ` set ps" by auto
  from Cons.IH[OF nk] ne show ?case
    by (auto simp: p fun_eq_iff split: option.splits)
qed

lemma distinct_put_index:
  "k \<notin> fst ` set ps \<Longrightarrow> distinct (map fst ps) \<Longrightarrow> distinct (map fst (put_index i k v ps))"
proof (induction ps)
  case Nil
  show ?case by simp
next
  case (Cons p ps)
  then have nk: "k \<notin> fst ` set ps" and d: "distinct (map fst ps)" and np: "fst p \<notin> fst ` set ps"
    and ne: "fst p \<noteq> k"
    by auto
  from Cons.IH[OF nk d] np ne nk d put_index_keys[of i k v ps] show ?case
    by (auto split: option.splits)
qed

lemma map_of_put_prop: "map_of (put_prop k v obj) = (map_of obj)(k \<mapsto> v)"
proof (cases "k \<in> fst ` set obj")
  case True
  then show ?thesis by (simp add: put_prop_def update_conv')
next
  case False
  then have n: "map_of obj k = None" by (simp add: map_of_eq_None_iff)
  have "map_of (obj @ [(k, v)]) = (map_of obj)(k \<mapsto> v)"
    using n by (auto simp: fun_eq_iff map_add_def split: option.splits)
  with False map_of_put_index[OF False] show ?thesis
    by (simp add: put_prop_def split: option.splits)
qed

lemma distinct_put_prop: "distinct (map fst obj) \<Longrightarrow> distinct (map fst (put_prop k v obj))"
  by (auto simp: put_prop_def distinct_update distinct_put_index split: option.splits)

lemma map_of_copy_props: "map_of (copy_props src obj) = map_of obj ++ map_of (rev src)"
proof (induction src arbitrary: obj)
  case Nil
  show ?case by (simp add: copy_props_def)
next
  case (Cons x xs)
  obtain k v where x: "x = (k, v)" by (cases x)
  have "copy_props (x # xs) obj = copy_props xs (put_prop k v obj)"
    by (simp add: copy_props_def x)
  then have "map_of (copy_props (x # xs) obj) = (map_of obj)(k \<mapsto> v) ++ map_of (rev xs)"
    by (simp only: Cons map_of_put_prop)
  also have "\<dots> = map_of obj ++ (map_of [x] ++ map_of (rev xs))"
    by (auto simp: x fun_eq_iff map_add_def split: option.split)
  also have "map_of [x] ++ map_of (rev xs) = map_of (rev (x # xs))"
    by simp
  finally show ?case .
qed

lemma distinct_copy_props:
  "distinct (map fst obj) \<Longrightarrow> distinct (map fst (copy_props src obj))"
proof (induction src arbitrary: obj)
  case Nil
  then show ?case by (simp add: copy_props_def)
next
  case (Cons x xs)
  obtain k v where x: "x = (k, v)" by (cases x)
  have "copy_props (x # xs) obj = copy_props xs (put_prop k v obj)"
    by (simp add: copy_props_def x)
  with Cons show ?case by (simp add: distinct_put_prop)
qed

lemma map_of_rev_distinct: "distinct (map fst xs) \<Longrightarrow> map_of (rev xs) = map_of xs"
proof (induction xs)
  case Nil
  show ?case by simp
next
  case (Cons x xs)
  obtain k v where x: "x = (k, v)" by (cases x)
  from Cons.prems x have nk: "k \<notin> dom (map_of xs)" by (simp add: dom_map_of_conv_image_fst)
  have "map_of (rev (x # xs)) = map_of [x] ++ map_of xs"
    using Cons by simp
  also have "\<dots> = (map_of xs)(k \<mapsto> v)"
    using nk by (auto simp: x map_add_def fun_eq_iff split: option.split)
  finally show ?case by (simp add: x)
qed

lemma retries_with_retries_0: "retries (with_retries_0 req) = Some (JNum 0)"
  by (simp add: retries_def with_retries_0_def map_of_put_prop)

lemma distinct_stored:
  "distinct (map fst (spread (with_retries_0 req)))"
  "distinct (map fst (spread (shallow_merge payload u)))"
  by (simp_all add: with_retries_0_def shallow_merge_def distinct_put_prop distinct_copy_props)

lemma toString_digits: "c \<in> set (toString n) \<Longrightarrow> 48 \<le> (of_char c :: nat) \<and> (of_char c :: nat) < 58"
proof (induction n rule: toString.induct)
  case (1 n)
  show ?case
  proof (cases "n < 10")
    case True
    with "1.prems" have "c = digit n" by (subst (asm) toString.simps) simp
    with True show ?thesis by (simp add: digit_def)
  next
    case False
    with "1.prems" have "c \<in> set (toString (n div 10)) \<or> c = digit (n mod 10)"
      by (subst (asm) toString.simps) auto
    then show ?thesis
    proof
      assume "c \<in> set (toString (n div 10))"
      from "1.IH"[OF False this] show ?thesis .
    next
      assume "c = digit (n mod 10)"
      then show ?thesis by (simp add: digit_def)
    qed
  qed
qed

text \<open>A key with a character that is no digit is not an array index.\<close>

lemma array_index_None:
  assumes "c \<in> set k" "(of_char c :: nat) < 48 \<or> 58 \<le> (of_char c :: nat)"
  shows "array_index k = None"
proof -
  have "toString n \<noteq> k" for n
    using toString_digits[of c n] assms by auto
  then show ?thesis by (simp add: array_index_def)
qed

lemma array_index_retries [simp]: "array_index ''retries'' = None"
  by (rule array_index_None[of "CHR ''r''"]) simp_all

lemma array_index_examples:
  "array_index ''body'' = None" "array_index ''n'' = None" "array_index ''1'' = Some 1"
proof -
  show "array_index ''body'' = None" by (rule array_index_None[of "CHR ''b''"]) simp_all
  show "array_index ''n'' = None" by (rule array_index_None[of "CHR ''n''"]) simp_all
  have "toString 1 = ''1''" by (subst toString.simps) (simp add: digit_def char_of_eq_iff)
  then show "array_index ''1'' = Some 1" by (simp add: array_index_def)
qed

text \<open>An array index among the updates is listed before the keys already there.\<close>

lemma shallow_merge_index_first:
  "shallow_merge (JObj [(''body'', JStr ''report''), (''retries'', JNum 3)]) (JObj [(''1'', JNum 2)])
   = JObj [(''1'', JNum 2), (''body'', JStr ''report''), (''retries'', JNum 3)]"
  by (simp add: shallow_merge_def copy_props_def put_prop_def array_index_examples)

lemma retries_shallow_merge:
  assumes "distinct (map fst (spread payload))" "distinct (map fst (spread u))"
  shows "retries (shallow_merge payload u)
         = (case retries u of Some r \<Rightarrow> Some r | None \<Rightarrow> retries payload)"
  using assms
  by (simp add: retries_def shallow_merge_def map_of_copy_props map_of_rev_distinct map_add_def
      split: option.split)

lemma remove_kept:
  "map_of (files (remove p s)) f = None \<or> map_of (files (remove p s)) f = map_of (files s) f"
  by (simp add: remove_def deleteAsync_def map_of_filter_fst)

lemma fold_remove_kept:
  "map_of (files (fold (\<lambda>f. remove (g f)) fs s)) f = None
   \<or> map_of (files (fold (\<lambda>f. remove (g f)) fs s)) f = map_of (files s) f"
proof (induction fs arbitrary: s)
  case Nil
  show ?case by simp
next
  case (Cons x xs)
  from Cons[of "remove (g x) s"] remove_kept[of "g x" s f] show ?case by auto
qed

lemma truncate_files:
  "files (q_truncate s) = files s
   \<or> (\<exists>k. files (q_truncate s)
        = files (fold (\<lambda>f. remove (q_path s @ ''/'' @ f)) (take k (listing s)) (tick (s\<lparr>q_truncating := True\<rparr>))))"
  by (simp add: q_truncate_def readDirectoryAsync_def Let_def listing_def) blast

lemma truncate_kept:
  "map_of (files (q_truncate s)) f = None \<or> map_of (files (q_truncate s)) f = map_of (files s) f"
  using truncate_files[of s]
proof
  assume "files (q_truncate s) = files s"
  then show ?thesis by simp
next
  assume "\<exists>k. files (q_truncate s)
        = files (fold (\<lambda>f. remove (q_path s @ ''/'' @ f)) (take k (listing s)) (tick (s\<lparr>q_truncating := True\<rparr>)))"
  then obtain k where "files (q_truncate s)
        = files (fold (\<lambda>f. remove (q_path s @ ''/'' @ f)) (take k (listing s)) (tick (s\<lparr>q_truncating := True\<rparr>)))" ..
  with fold_remove_kept[of "\<lambda>f. q_path s @ ''/'' @ f" "take k (listing s)" "tick (s\<lparr>q_truncating := True\<rparr>)" f]
  show ?thesis by simp
qed

lemma peek_body_files:
  assumes "peek_body s = (out, s1)"
  shows "files s1 = files s \<or> (\<exists>p t. s1 = remove p t \<and> files t = files s)"
proof (cases "faulted (ReadDirectory (q_path s)) s \<or> q_path s \<notin> set (dirs s)")
  case True
  from peek_body_nodir[OF True] assms show ?thesis by auto
next
  case False
  then have nrd: "\<not> faulted (ReadDirectory (q_path s)) s" and dir: "q_path s \<in> set (dirs s)"
    by simp_all
  show ?thesis
  proof (cases "listing s")
    case Nil
    from peek_body_empty[OF nrd dir Nil] assms show ?thesis by auto
  next
    case (Cons n rest)
    let ?p = "q_path s @ CHR ''/'' # n"
    show ?thesis
    proof (cases "faulted (ReadAsString ?p) (tick s) \<or> (\<forall>v. map_of (files s) ?p \<noteq> Some (Json v))")
      case False
      then obtain v where "\<not> faulted (ReadAsString ?p) (tick s)" "map_of (files s) ?p = Some (Json v)"
        by auto
      from peek_body_valid[OF nrd dir Cons this] assms show ?thesis by auto
    next
      case True
      from peek_body_heal[OF nrd dir Cons True] assms
      have "s1 = remove ?p (tick (tick s))" by simp
      moreover have "files (tick (tick s)) = files s" by simp
      ultimately show ?thesis by blast
    qed
  qed
qed

lemma peek_body_kept:
  assumes "peek_body s = (out, s1)"
  shows "map_of (files s1) f = None \<or> map_of (files s1) f = map_of (files s) f"
  using peek_body_files[OF assms]
proof
  assume "files s1 = files s" then show ?thesis by simp
next
  assume "\<exists>p t. s1 = remove p t \<and> files t = files s"
  then obtain p t where "s1 = remove p t" "files t = files s" by blast
  with remove_kept[of p t f] show ?thesis by simp
qed

lemma peek_kept:
  assumes "peek s = Some x"
  shows "map_of (files (snd x)) f = None \<or> map_of (files (snd x)) f = map_of (files s) f"
proof (rule peek.raw_induct[where P = "\<lambda>s x. map_of (files (snd x)) f = None
          \<or> map_of (files (snd x)) f = map_of (files s) f", OF _ assms])
  fix peek' :: "queue \<Rightarrow> ((string \<times> json) option \<times> queue) option" and s x
  assume IH: "\<And>s x. peek' s = Some x \<Longrightarrow>
      map_of (files (snd x)) f = None \<or> map_of (files (snd x)) f = map_of (files s) f"
    and eq: "(case peek_body s of (Return r, s1) \<Rightarrow> Some (r, s1) | (PeekAgain, s1) \<Rightarrow> peek' s1) = Some x"
  obtain out s1 where pb: "peek_body s = (out, s1)" by (cases "peek_body s")
  note k = peek_body_kept[OF pb, of f]
  show "map_of (files (snd x)) f = None \<or> map_of (files (snd x)) f = map_of (files s) f"
  proof (cases out)
    case (Return r)
    with eq pb have "snd x = s1" by auto
    with k show ?thesis by simp
  next
    case PeekAgain
    with eq pb have "peek' s1 = Some x" by simp
    from IH[OF this] k show ?thesis by auto
  qed
qed

lemma enqueue_kept:
  "map_of (files (enqueue now rnd req s)) f = None
   \<or> map_of (files (enqueue now rnd req s)) f = map_of (files s) f
   \<or> (f = q_path s @ ''/'' @ generateFilename (q_resource s) now rnd
      \<and> map_of (files (enqueue now rnd req s)) f = Some (Json (with_retries_0 req)))"
  using enqueue_outcome[of now rnd req s]
proof
  assume "\<exists>e. q_onerror (enqueue now rnd req s) = q_onerror s @ [e]
        \<and> files (enqueue now rnd req s) = files s
        \<and> q_truncating (enqueue now rnd req s) = q_truncating s"
  then show ?thesis by auto
next
  assume "\<exists>s2. enqueue now rnd req s = q_truncate s2
        \<and> files s2 = AList.update (q_path s @ ''/'' @ generateFilename (q_resource s) now rnd)
                        (Json (with_retries_0 req)) (files s)
        \<and> q_onerror s2 = q_onerror s \<and> q_truncating s2 = q_truncating s
        \<and> q_path s2 = q_path s \<and> io_fault s2 = io_fault s"
  then obtain s2 where s2: "enqueue now rnd req s = q_truncate s2"
      "files s2 = AList.update (q_path s @ ''/'' @ generateFilename (q_resource s) now rnd)
                        (Json (with_retries_0 req)) (files s)" by blast
  from truncate_kept[of s2 f] show ?thesis
    unfolding s2(1) by (auto simp: s2(2) update_conv' split: if_splits)
qed

lemma update_kept:
  "map_of (files (update p u s)) f = map_of (files s) f
   \<or> (f = p \<and> (\<exists>payload. map_of (files s) p = Some (Json payload)
        \<and> map_of (files (update p u s)) p = Some (Json (shallow_merge payload u))))"
  using update_outcome[of s p u] by (auto simp: update_conv' split: if_splits)

subsection \<open>Generated names, and files under other names\<close>

lemma plain_digit: "d < 10 \<Longrightarrow> plain (digit d)"
  by (auto simp: plain_def digit_def line_terminator_def char_of_eq_iff take_bit_eq_mod)

lemma plain_toString: "list_all plain (toString n)"
proof (induction n rule: toString.induct)
  case (1 n)
  show ?case
  proof (cases "n < 10")
    case True
    then show ?thesis by (subst toString.simps) (simp add: plain_digit)
  next
    case False
    with 1 show ?thesis by (subst toString.simps) (simp add: plain_digit)
  qed
qed

lemma plain_digits: "list_all plain (digits w n)"
  by (induction w arbitrary: n) (simp_all add: plain_digit)

lemma plain_toISOString: "list_all plain (toISOString d)"
  by (simp add: toISOString_def plain_digits) (simp add: plain_def line_terminator_def)

lemma foldl_append_concat: "foldl (\<lambda>accum i. accum @ g i) acc xs = acc @ concat (map g xs)"
  by (induction xs arbitrary: acc) simp_all

lemma uid_concat: "uid rnd = concat (map (\<lambda>i. toString (rnd i)) [0..<16])"
  unfolding uid_def by (simp only: foldl_append_concat append_Nil)

lemma plain_uid: "list_all plain (uid rnd)"
  unfolding uid_concat by (simp add: list_all_iff plain_toString[unfolded list_all_iff])

lemma filenameRe_intro:
  assumes "list_all (\<lambda>c. \<not> line_terminator c) m"
  shows "filenameRe (''bugsnag-'' @ m @ ''.json'')"
  using assms by (simp add: filenameRe_def)

lemma plain_imp: "list_all plain xs \<Longrightarrow> list_all (\<lambda>c. \<not> line_terminator c) xs"
  "list_all plain xs \<Longrightarrow> CHR ''/'' \<notin> set xs"
  by (auto simp: list_all_iff plain_def)

lemma filenameRe_generateFilename:
  assumes "list_all (\<lambda>c. \<not> line_terminator c) resource"
  shows "filenameRe (generateFilename resource now rnd)"
proof -
  have "list_all (\<lambda>c. \<not> line_terminator c)
          (resource @ ''-'' @ toISOString now @ ''-'' @ uid rnd)"
    using assms plain_imp(1)[OF plain_toISOString[of now]] plain_imp(1)[OF plain_uid[of rnd]]
    by (simp add: line_terminator_def)
  from filenameRe_intro[OF this] show ?thesis by (simp add: generateFilename_def)
qed


text \<open>An entry of the directory under another name is not touched by a remove.\<close>

lemma remove_other:
  assumes "child_name d f = Some n" "n \<noteq> m"
  shows "map_of (files (remove (d @ CHR ''/'' # m) s)) f = map_of (files s) f"
proof -
  have ne: "f \<noteq> d @ CHR ''/'' # m"
    using assms by (auto split: if_splits)
  have nb: "\<not> beneath (d @ CHR ''/'' # m) f"
    using child_name_beneath[of d m f] assms(1) by auto
  show ?thesis
    using ne nb by (simp add: remove_def deleteAsync_def map_of_filter_fst)
qed

lemma fold_remove_other:
  assumes "child_name d f = Some n" "n \<notin> set ms"
  shows "map_of (files (fold (\<lambda>m. remove (d @ CHR ''/'' # m)) ms s)) f = map_of (files s) f"
  using assms(2)
proof (induction ms arbitrary: s)
  case Nil
  show ?case by simp
next
  case (Cons m ms)
  then have "n \<noteq> m" "n \<notin> set ms" by auto
  with Cons.IH[of "remove (d @ CHR ''/'' # m) s"] remove_other[OF assms(1), of m s]
  show ?case by simp
qed

lemma truncate_other:
  assumes "child_name (q_path s) f = Some n" "\<not> filenameRe n"
  shows "map_of (files (q_truncate s)) f = map_of (files s) f"
  using truncate_files[of s]
proof
  assume "files (q_truncate s) = files s"
  then show ?thesis by simp
next
  assume "\<exists>k. files (q_truncate s)
        = files (fold (\<lambda>f. remove (q_path s @ ''/'' @ f)) (take k (listing s)) (tick (s\<lparr>q_truncating := True\<rparr>)))"
  then obtain k where k: "files (q_truncate s)
        = files (fold (\<lambda>f. remove (q_path s @ CHR ''/'' # f)) (take k (listing s)) (tick (s\<lparr>q_truncating := True\<rparr>)))"
    by auto
  have "n \<notin> set (listing s)" using assms(2) by (auto simp: listing_def)
  then have "n \<notin> set (take k (listing s))" by (meson in_set_takeD)
  from fold_remove_other[OF assms(1) this] show ?thesis
    unfolding k by simp
qed

lemma truncate_within_limit:
  assumes "int (length (listing s)) \<le> MAX_ITEMS"
  shows "files (q_truncate s) = files s"
  using assms
  by (auto simp add: q_truncate_def readDirectoryAsync_def Let_def listing_def)

lemma peek_body_step:
  assumes "peek_body s = (out, s1)"
  shows "q_path s1 = q_path s"
    and "files s1 = files s
         \<or> (\<exists>m t. filenameRe m \<and> s1 = remove (q_path s @ CHR ''/'' # m) t \<and> files t = files s)"
    and "\<And>p v. out = Return (Some (p, v)) \<Longrightarrow> \<exists>m. filenameRe m \<and> p = q_path s @ CHR ''/'' # m"
proof -
  have "q_path s1 = q_path s
      \<and> (files s1 = files s
         \<or> (\<exists>m t. filenameRe m \<and> s1 = remove (q_path s @ CHR ''/'' # m) t \<and> files t = files s))
      \<and> (\<forall>p v. out = Return (Some (p, v)) \<longrightarrow> (\<exists>m. filenameRe m \<and> p = q_path s @ CHR ''/'' # m))"
  proof (cases "faulted (ReadDirectory (q_path s)) s \<or> q_path s \<notin> set (dirs s)")
    case True
    from peek_body_nodir[OF True] assms show ?thesis by auto
  next
    case False
    then have nrd: "\<not> faulted (ReadDirectory (q_path s)) s" and dir: "q_path s \<in> set (dirs s)"
      by simp_all
    show ?thesis
    proof (cases "listing s")
      case Nil
      from peek_body_empty[OF nrd dir Nil] assms show ?thesis by auto
    next
      case (Cons n rest)
      let ?p = "q_path s @ CHR ''/'' # n"
      have re: "filenameRe n" by (rule listing_head_facts(4)[OF Cons])
      show ?thesis
      proof (cases "faulted (ReadAsString ?p) (tick s) \<or> (\<forall>v. map_of (files s) ?p \<noteq> Some (Json v))")
        case False
        then obtain v where "\<not> faulted (ReadAsString ?p) (tick s)" "map_of (files s) ?p = Some (Json v)"
          by auto
        from peek_body_valid[OF nrd dir Cons this] assms re show ?thesis by auto
      next
        case True
        from peek_body_heal[OF nrd dir Cons True] assms
        have s1: "s1 = remove ?p (tick (tick s))" and out: "out = PeekAgain" by simp_all
        have "files (tick (tick s)) = files s" by simp
        with s1 re have "\<exists>m t. filenameRe m \<and> s1 = remove (q_path s @ CHR ''/'' # m) t \<and> files t = files s"
          by blast
        with s1 out show ?thesis by simp
      qed
    qed
  qed
  then show "q_path s1 = q_path s"
    and "files s1 = files s
         \<or> (\<exists>m t. filenameRe m \<and> s1 = remove (q_path s @ CHR ''/'' # m) t \<and> files t = files s)"
    and "\<And>p v. out = Return (Some (p, v)) \<Longrightarrow> \<exists>m. filenameRe m \<and> p = q_path s @ CHR ''/'' # m"
    by blast+
qed

lemma peek_body_other:
  assumes "peek_body s = (out, s1)" "child_name (q_path s) f = Some n" "\<not> filenameRe n"
  shows "map_of (files s1) f = map_of (files s) f" "\<And>v. out \<noteq> Return (Some (f, v))"
proof -
  from peek_body_step(2)[OF assms(1)] show "map_of (files s1) f = map_of (files s) f"
  proof
    assume "files s1 = files s" then show ?thesis by simp
  next
    assume "\<exists>m t. filenameRe m \<and> s1 = remove (q_path s @ CHR ''/'' # m) t \<and> files t = files s"
    then obtain m t where m: "filenameRe m" "s1 = remove (q_path s @ CHR ''/'' # m) t" "files t = files s"
      by blast
    with assms(3) have "n \<noteq> m" by auto
    from remove_other[OF assms(2) this, of t] m show ?thesis by simp
  qed
  show "out \<noteq> Return (Some (f, v))" for v
  proof
    assume "out = Return (Some (f, v))"
    from peek_body_step(3)[OF assms(1) this] obtain m where m: "filenameRe m" "f = q_path s @ CHR ''/'' # m"
      by blast
    with assms(2) have "n = m" by (auto split: if_splits)
    with m(1) assms(3) show False by simp
  qed
qed

lemma peek_other:
  assumes "peek s = Some x" and "child_name (q_path s) f = Some n" and "\<not> filenameRe n"
  shows "map_of (files (snd x)) f = map_of (files s) f \<and> (\<forall>v. fst x \<noteq> Some (f, v))"
proof -
  have "child_name (q_path s) f = Some n \<longrightarrow>
        map_of (files (snd x)) f = map_of (files s) f \<and> (\<forall>v. fst x \<noteq> Some (f, v))"
  proof (rule peek.raw_induct[where P = "\<lambda>s x. child_name (q_path s) f = Some n \<longrightarrow>
        map_of (files (snd x)) f = map_of (files s) f \<and> (\<forall>v. fst x \<noteq> Some (f, v))", OF _ assms(1)])
    fix peek' :: "queue \<Rightarrow> ((string \<times> json) option \<times> queue) option" and s x
    assume IH: "\<And>s x. peek' s = Some x \<Longrightarrow> child_name (q_path s) f = Some n \<longrightarrow>
        map_of (files (snd x)) f = map_of (files s) f \<and> (\<forall>v. fst x \<noteq> Some (f, v))"
      and eq: "(case peek_body s of (Return r, s1) \<Rightarrow> Some (r, s1) | (PeekAgain, s1) \<Rightarrow> peek' s1) = Some x"
    obtain out s1 where pb: "peek_body s = (out, s1)" by (cases "peek_body s")
    show "child_name (q_path s) f = Some n \<longrightarrow>
        map_of (files (snd x)) f = map_of (files s) f \<and> (\<forall>v. fst x \<noteq> Some (f, v))"
    proof
      assume c: "child_name (q_path s) f = Some n"
      note o = peek_body_other[OF pb c assms(3)]
      show "map_of (files (snd x)) f = map_of (files s) f \<and> (\<forall>v. fst x \<noteq> Some (f, v))"
      proof (cases out)
        case (Return r)
        with eq pb have "x = (r, s1)" by auto
        with o Return show ?thesis by auto
      next
        case PeekAgain
        with eq pb have "peek' s1 = Some x" by simp
        from IH[OF this] c peek_body_step(1)[OF pb] o(1) show ?thesis by simp
      qed
    qed
  qed
  with assms(2) show ?thesis by simp
qed

lemma enqueue_other:
  assumes "child_name (q_path s) f = Some n" "\<not> filenameRe n"
    and "list_all (\<lambda>c. \<not> line_terminator c) (q_resource s)"
  shows "map_of (files (enqueue now rnd req s)) f = map_of (files s) f"
  using enqueue_outcome[of now rnd req s]
proof
  assume "\<exists>e. q_onerror (enqueue now rnd req s) = q_onerror s @ [e]
        \<and> files (enqueue now rnd req s) = files s
        \<and> q_truncating (enqueue now rnd req s) = q_truncating s"
  then show ?thesis by auto
next
  let ?name = "generateFilename (q_resource s) now rnd"
  assume "\<exists>s2. enqueue now rnd req s = q_truncate s2
        \<and> files s2 = AList.update (q_path s @ ''/'' @ ?name) (Json (with_retries_0 req)) (files s)
        \<and> q_onerror s2 = q_onerror s \<and> q_truncating s2 = q_truncating s
        \<and> q_path s2 = q_path s \<and> io_fault s2 = io_fault s"
  then obtain s2 where s2: "enqueue now rnd req s = q_truncate s2"
      "files s2 = AList.update (q_path s @ CHR ''/'' # ?name) (Json (with_retries_0 req)) (files s)"
      "q_path s2 = q_path s" by auto
  have "filenameRe ?name" by (rule filenameRe_generateFilename[OF assms(3)])
  with assms(1,2) have ne: "f \<noteq> q_path s @ CHR ''/'' # ?name"
    by (auto split: if_splits)
  have "map_of (files (q_truncate s2)) f = map_of (files s2) f"
    by (rule truncate_other[of s2 f n]) (simp_all add: s2(3) assms(1,2))
  with ne show ?thesis by (simp add: s2(1,2) update_conv')
qed

subsection \<open>The order of generated names\<close>






lemma length_digits [simp]: "length (digits w n) = w"
  by (induction w arbitrary: n) simp_all












subsection \<open>Removing entries and truncating when nothing fails\<close>















subsection \<open>Enqueueing when nothing fails\<close>

lemma child_name_self [simp]: "child_name d d = None"
  by (simp add: child_name_def)











subsection \<open>A run of enqueues, then peek and remove in turn\<close>

lemma stored_tick [simp]: "stored (tick s) G = stored s G"
  by (simp add: stored_def)












subsection \<open>From an empty queue; the bound of a truncation pass\<close>



subsection \<open>When every delete fails, and when every write fails\<close>




subsection \<open>The listing of a directory that holds given records\<close>



subsection \<open>The identifiers that peek returns\<close>

text \<open>Every identifier \<^verbatim>\<open>peek\<close> returns is the path of a listed name.\<close>

lemma peek_issues:
  assumes "peek s = Some x" and "fst x = Some (p, v)"
  shows "\<exists>m. filenameRe m \<and> p = q_path s @ CHR ''/'' # m"
proof -
  have "fst x = Some (p, v) \<longrightarrow> (\<exists>m. filenameRe m \<and> p = q_path s @ CHR ''/'' # m)"
  proof (rule peek.raw_induct[where P = "\<lambda>s x. fst x = Some (p, v) \<longrightarrow>
        (\<exists>m. filenameRe m \<and> p = q_path s @ CHR ''/'' # m)", OF _ assms(1)])
    fix peek' :: "queue \<Rightarrow> ((string \<times> json) option \<times> queue) option" and s x
    assume IH: "\<And>s x. peek' s = Some x \<Longrightarrow> fst x = Some (p, v) \<longrightarrow>
        (\<exists>m. filenameRe m \<and> p = q_path s @ CHR ''/'' # m)"
      and eq: "(case peek_body s of (Return r, s1) \<Rightarrow> Some (r, s1) | (PeekAgain, s1) \<Rightarrow> peek' s1) = Some x"
    obtain out s1 where pb: "peek_body s = (out, s1)" by (cases "peek_body s")
    show "fst x = Some (p, v) \<longrightarrow> (\<exists>m. filenameRe m \<and> p = q_path s @ CHR ''/'' # m)"
    proof (cases out)
      case (Return r)
      with eq pb have "x = (r, s1)" by auto
      with peek_body_step(3)[OF pb, of p v] Return show ?thesis by auto
    next
      case PeekAgain
      with eq pb have "peek' s1 = Some x" by simp
      from IH[OF this] peek_body_step(1)[OF pb] show ?thesis by simp
    qed
  qed
  with assms(2) show ?thesis by simp
qed

lemma update_other:
  assumes "child_name d f = Some n" "n \<noteq> m"
  shows "map_of (files (update (d @ CHR ''/'' # m) u s)) f = map_of (files s) f"
proof -
  have "f \<noteq> d @ CHR ''/'' # m"
    using assms by (auto split: if_splits)
  with update_kept[of "d @ CHR ''/'' # m" u s f] show ?thesis by auto
qed

text \<open>
  With an identifier that \<^verbatim>\<open>peek\<close> has returned, \<^verbatim>\<open>remove\<close> and \<^verbatim>\<open>update\<close> leave the
  files under other names as they are.
\<close>

lemma issued_other:
  assumes "peek t = Some (Some (p, v), t')" and "q_path t = q_path s"
    and "child_name (q_path s) f = Some n" and "\<not> filenameRe n"
  shows "map_of (files (remove p s)) f = map_of (files s) f"
    and "map_of (files (update p u s)) f = map_of (files s) f"
proof -
  from peek_issues[OF assms(1)] assms(2) obtain m where m: "filenameRe m" "p = q_path s @ CHR ''/'' # m"
    by auto
  with assms(4) have ne: "n \<noteq> m" by auto
  show "map_of (files (remove p s)) f = map_of (files s) f"
    unfolding m(2) by (rule remove_other[OF assms(3) ne])
  show "map_of (files (update p u s)) f = map_of (files s) f"
    unfolding m(2) by (rule update_other[OF assms(3) ne])
qed

subsection \<open>The example stores\<close>

lemma ex_queue_fields [simp]:
  "dirs (ex_queue fl flt) = [''cache/bugsnag/events'']" "files (ex_queue fl flt) = fl"
  "io_fault (ex_queue fl flt) = flt" "io_count (ex_queue fl flt) = 0"
  "q_path (ex_queue fl flt) = ''cache/bugsnag/events''" "q_resource (ex_queue fl flt) = ''events''"
  "q_onerror (ex_queue fl flt) = []" "q_truncating (ex_queue fl flt) = False"
  by (simp_all add: ex_queue_def ex_fs_def UndeliveredPayloadQueue_def PAYLOAD_PATH_def)

lemma ex_names [simp]: "filenameRe ex_a" "filenameRe ex_b" "ex_a < ex_b" "ex_a \<noteq> ex_b"
  "CHR ''/'' \<notin> set ex_a"  "CHR ''/'' \<notin> set ex_b"
  by (simp_all add: ex_a_def ex_b_def filenameRe_def line_terminator_def)

lemma ex_listing_two:
  "listing (ex_queue [(''cache/bugsnag/events/'' @ ex_b, y), (''cache/bugsnag/events/'' @ ex_a, x)] flt)
   = [ex_a, ex_b]"
  apply (simp add: listing_def entries_def)
  apply (simp add: ex_a_def ex_b_def filenameRe_def line_terminator_def child_name_def)
  done

lemma ex_heal_facts:
  "io_fault ex_heal = no_faults" "q_path ex_heal \<in> set (dirs ex_heal)"
  "map_of (files ex_heal) (q_path ex_heal @ ''/'' @ ex_a) = Some (Corrupt ''{'')"
  "map_of (files ex_heal) (q_path ex_heal @ ''/'' @ ex_b) = Some (Json (JObj [(''retries'', JNum 0)]))"
  by (simp_all add: ex_heal_def)

lemma ex_heal_listing: "listing ex_heal = [ex_a, ex_b]"
  unfolding ex_heal_def by (rule ex_listing_two)

lemma ex_one_facts:
  "io_fault ex_one = no_faults" "q_path ex_one = ''cache/bugsnag/events''" "q_onerror ex_one = []"
  "dirs ex_one = [''cache/bugsnag/events'']" "io_count ex_one = 0"
  "files ex_one = [(''cache/bugsnag/events/'' @ ex_a, Json (JObj [(''retries'', JNum 0)]))]"
  by (simp_all add: ex_one_def)

lemma ex_listing_one:
  "listing (ex_queue [(''cache/bugsnag/events/'' @ ex_a, x)] flt) = [ex_a]"
  apply (simp add: listing_def entries_def)
  apply (simp add: ex_a_def filenameRe_def line_terminator_def child_name_def)
  done

lemma ex_corrupt_facts:
  "io_fault ex_corrupt = no_faults" "q_path ex_corrupt \<in> set (dirs ex_corrupt)"
  "map_of (files ex_corrupt) (q_path ex_corrupt @ CHR ''/'' # ex_a) = Some (Corrupt ''{'')"
  "q_onerror ex_corrupt = []"
  "files ex_corrupt = [(q_path ex_corrupt @ CHR ''/'' # ex_a, Corrupt ''{'')]"
  by (simp_all add: ex_corrupt_def)

lemma ex_corrupt_listing: "listing ex_corrupt = [ex_a]"
  unfolding ex_corrupt_def by (rule ex_listing_one)

lemma ex_stuck_facts:
  "io_fault ex_stuck = delete_fails" "q_path ex_stuck \<in> set (dirs ex_stuck)"
  "\<forall>v. map_of (files ex_stuck) (q_path ex_stuck @ CHR ''/'' # ex_a) \<noteq> Some (Json v)"
  by (simp_all add: ex_stuck_def)

lemma ex_stuck_listing: "listing ex_stuck = [ex_a]"
  unfolding ex_stuck_def by (rule ex_listing_one)

lemma ex_stuck_two_facts:
  "io_fault ex_stuck_two = delete_fails" "q_path ex_stuck_two \<in> set (dirs ex_stuck_two)"
  "\<forall>v. map_of (files ex_stuck_two) (q_path ex_stuck_two @ CHR ''/'' # ex_a) \<noteq> Some (Json v)"
  by (simp_all add: ex_stuck_two_def)

lemma ex_stuck_two_listing: "listing ex_stuck_two = [ex_a, ex_b]"
  unfolding ex_stuck_two_def by (rule ex_listing_two)

lemma ex_corrupt_peek:
  "peek ex_corrupt = Some (None, tick (remove (q_path ex_corrupt @ CHR ''/'' # ex_a) (tick (tick ex_corrupt))))"
proof -
  let ?p = "q_path ex_corrupt @ CHR ''/'' # ex_a"
  let ?s1 = "remove ?p (tick (tick ex_corrupt))"
  have nrd: "\<not> faulted (ReadDirectory (q_path ex_corrupt)) ex_corrupt"
    and nft: "\<not> faulted (Delete ?p) (tick (tick ex_corrupt))"
    using ex_corrupt_facts(1) by simp_all
  have pb: "peek_body ex_corrupt = (PeekAgain, ?s1)"
    by (rule peek_body_heal[OF nrd ex_corrupt_facts(2) ex_corrupt_listing])
       (simp add: ex_corrupt_facts(3))
  note h = heal_step[OF nft ex_corrupt_facts(2) ex_corrupt_listing]
  have l1: "listing ?s1 = []" by (simp add: h(4) ex_corrupt_listing)
  have nrd1: "\<not> faulted (ReadDirectory (q_path ?s1)) ?s1"
    using h(1) ex_corrupt_facts(1) by simp
  have pb1: "peek_body ?s1 = (Return None, tick ?s1)"
    by (rule peek_body_empty[OF nrd1 h(3) l1])
  show ?thesis
    by (subst peek.simps, simp only: pb prod.case outcome.case, subst peek.simps,
        simp only: pb1 prod.case outcome.case)
qed

lemma ex_fresh_facts:
  "io_fault ex_fresh = no_faults" "q_path ex_fresh \<notin> set (dirs ex_fresh)"
  "q_onerror ex_fresh = []" "dirs ex_fresh = []" "files ex_fresh = []" "\<not> q_truncating ex_fresh"
  "q_path ex_fresh = ''cache/bugsnag/events''" "q_resource ex_fresh = ''events''"
  by (simp_all add: ex_fresh_def UndeliveredPayloadQueue_def PAYLOAD_PATH_def)

lemma ex_retried_facts:
  "io_fault ex_retried = no_faults" "dirs ex_retried = [''cache/bugsnag/events'']"
  "files ex_retried = [(''cache/bugsnag/events/'' @ ex_a,
       Json (JObj [(''body'', JStr ''report''), (''retries'', JNum 3)]))]"
  by (simp_all add: ex_retried_def)

lemma ex_notes_facts:
  "io_fault ex_notes = no_faults" "q_path ex_notes = ''cache/bugsnag/events''"
  "files ex_notes = [(''cache/bugsnag/events/notes.txt'', Corrupt ''to do'')]"
  "dirs ex_notes = [''cache/bugsnag/events'']" "q_resource ex_notes = ''events''"
  by (simp_all add: ex_notes_def)












lemma ex_one_peek:
  "peek ex_one = Some (Some (''cache/bugsnag/events/'' @ ex_a, JObj [(''retries'', JNum 0)]), tick (tick ex_one))"
proof -
  have l: "listing ex_one = [ex_a]" unfolding ex_one_def by (rule ex_listing_one)
  have "peek_body ex_one
        = (Return (Some (q_path ex_one @ CHR ''/'' # ex_a, JObj [(''retries'', JNum 0)])), tick (tick ex_one))"
    by (rule peek_body_valid[OF _ _ l]) (simp_all add: ex_one_facts)
  then show ?thesis
    by (subst peek.simps) (simp add: ex_one_facts)
qed

lemma ex_notes_peek: "peek ex_notes = Some (None, tick ex_notes)"
proof -
  have l: "listing ex_notes = []"
    by (simp add: listing_def entries_def ex_notes_facts child_name_def filenameRe_def)
  have "peek_body ex_notes = (Return None, tick ex_notes)"
    by (rule peek_body_empty[OF _ _ l]) (simp_all add: ex_notes_facts)
  then show ?thesis by (subst peek.simps) simp
qed


section \<open>The claims\<close>

subsection \<open>C1: first in, first out\<close>




subsection \<open>C2: the bound of 64 entries\<close>




subsection \<open>C3: peek heals itself\<close>

text \<open>
  Claim C3. In a store whose oldest entry is corrupt and whose next entry is valid,
  on a file system without faults, \<^verbatim>\<open>peek\<close> returns the valid entry, and afterwards
  nothing is left at the path of the corrupt one.
\<close>

theorem peek_self_heals:
  assumes "io_fault s = no_faults" and "q_path s \<in> set (dirs s)"
    and "listing s = c # v # rest"
    and "map_of (files s) (q_path s @ ''/'' @ c) = Some (Corrupt t)"
    and "map_of (files s) (q_path s @ ''/'' @ v) = Some (Json j)"
  shows "\<exists>s'. peek s = Some (Some (q_path s @ ''/'' @ v, j), s') \<and> \<not> present (q_path s @ ''/'' @ c) s'"
proof -
  let ?pc = "q_path s @ CHR ''/'' # c" and ?pv = "q_path s @ CHR ''/'' # v"
  let ?s1 = "remove ?pc (tick (tick s))"
  have l: "listing s = c # (v # rest)" using assms(3) .
  have cv: "v \<noteq> c" using assms(4,5) by auto
  have "v \<in> set (listing s)" using l by simp
  then have "v \<in> set (entries (q_path s) s)" by (simp add: listing_def)
  then have vs: "CHR ''/'' \<notin> set v" by (rule entries_no_slash)
  have pb: "peek_body s = (PeekAgain, ?s1)"
    using peek_body_heal[OF _ assms(2) l] assms(1,4) by simp
  have nft: "\<not> faulted (Delete ?pc) (tick (tick s))" using assms(1) by simp
  note h = heal_step[OF nft assms(2) l]
  have l1: "listing ?s1 = v # filter (\<lambda>m. m \<noteq> c) rest" using h(4) l cv by simp
  have fv: "map_of (files ?s1) ?pv = Some (Json j)"
    using h(8)[OF cv vs] assms(5) by simp
  have pb1: "peek_body ?s1 = (Return (Some (?pv, j)), tick (tick ?s1))"
    using peek_body_valid[of ?s1 v "filter (\<lambda>m. m \<noteq> c) rest" j] h(1,3) l1 fv assms(1)
    by simp
  have "peek s = Some (Some (?pv, j), tick (tick ?s1))"
    by (subst peek.simps, simp add: pb, subst peek.simps, simp add: pb1)
  moreover have "\<not> present ?pc (tick (tick ?s1))"
    using h(6,7) by (simp add: present_def)
  ultimately show ?thesis by auto
qed

theorem peek_self_heals_witness:
  "io_fault ex_heal = no_faults \<and> q_path ex_heal \<in> set (dirs ex_heal)
   \<and> listing ex_heal = [ex_a, ex_b]
   \<and> map_of (files ex_heal) (q_path ex_heal @ ''/'' @ ex_a) = Some (Corrupt ''{'')
   \<and> map_of (files ex_heal) (q_path ex_heal @ ''/'' @ ex_b) = Some (Json (JObj [(''retries'', JNum 0)]))
   \<and> (\<exists>s'. peek ex_heal = Some (Some (q_path ex_heal @ ''/'' @ ex_b, JObj [(''retries'', JNum 0)]), s')
             \<and> \<not> present (q_path ex_heal @ ''/'' @ ex_a) s')"
  using peek_self_heals [OF ex_heal_facts(1,2) ex_heal_listing ex_heal_facts(3,4)]
        ex_heal_facts ex_heal_listing
  by blast

subsection \<open>C4: no method raises\<close>

text \<open>
  Claim C4, amended. \<^verbatim>\<open>remove\<close>, \<^verbatim>\<open>update\<close> and \<^verbatim>\<open>enqueue\<close> always return and
  raise nothing (they are total functions without an error result). Each of them either
  succeeds, or calls the error callback once and leaves the stored files unchanged;
  the truncation pass that a successful \<^verbatim>\<open>enqueue\<close> starts reports only failed
  listings and deletes. \<^verbatim>\<open>peek\<close> raises nothing either: when the listing fails it
  calls the error callback and returns \<^verbatim>\<open>null\<close>, and it returns whenever no delete
  fails.
\<close>

theorem operations_never_raise:
  "(q_onerror (remove p s) = q_onerror s
      \<or> (q_onerror (remove p s) = q_onerror s @ [FsError (Delete p)]
         \<and> files (remove p s) = files s \<and> dirs (remove p s) = dirs s))
   \<and> ((\<exists>payload. map_of (files s) p = Some (Json payload)
          \<and> files (update p u s) = AList.update p (Json (shallow_merge payload u)) (files s)
          \<and> q_onerror (update p u s) = q_onerror s)
      \<or> (\<exists>e. q_onerror (update p u s) = q_onerror s @ [e] \<and> files (update p u s) = files s))
   \<and> ((\<exists>e. q_onerror (enqueue now rnd req s) = q_onerror s @ [e]
          \<and> files (enqueue now rnd req s) = files s)
      \<or> (\<exists>s2 es. enqueue now rnd req s = q_truncate s2
          \<and> files s2 = AList.update (q_path s @ ''/'' @ generateFilename (q_resource s) now rnd)
                          (Json (with_retries_0 req)) (files s)
          \<and> q_onerror (enqueue now rnd req s) = q_onerror s @ es
          \<and> list_all listing_or_delete_failure es))
   \<and> (faulted (ReadDirectory (q_path s)) s \<or> q_path s \<notin> set (dirs s) \<longrightarrow>
        peek s = Some (None, onerror (FsError (ReadDirectory (q_path s))) (tick s)))
   \<and> ((\<forall>k p. \<not> io_fault s k (Delete p)) \<longrightarrow> (\<exists>r s'. peek s = Some (r, s')))"
proof (intro conjI impI)
  show "q_onerror (remove p s) = q_onerror s
      \<or> (q_onerror (remove p s) = q_onerror s @ [FsError (Delete p)]
         \<and> files (remove p s) = files s \<and> dirs (remove p s) = dirs s)"
    by (rule remove_outcome)
  show "(\<exists>payload. map_of (files s) p = Some (Json payload)
          \<and> files (update p u s) = AList.update p (Json (shallow_merge payload u)) (files s)
          \<and> q_onerror (update p u s) = q_onerror s)
      \<or> (\<exists>e. q_onerror (update p u s) = q_onerror s @ [e] \<and> files (update p u s) = files s)"
    by (rule update_outcome)
  from enqueue_outcome[of now rnd req s]
  show "(\<exists>e. q_onerror (enqueue now rnd req s) = q_onerror s @ [e]
          \<and> files (enqueue now rnd req s) = files s)
      \<or> (\<exists>s2 es. enqueue now rnd req s = q_truncate s2
          \<and> files s2 = AList.update (q_path s @ ''/'' @ generateFilename (q_resource s) now rnd)
                          (Json (with_retries_0 req)) (files s)
          \<and> q_onerror (enqueue now rnd req s) = q_onerror s @ es
          \<and> list_all listing_or_delete_failure es)"
  proof
    assume "\<exists>e. q_onerror (enqueue now rnd req s) = q_onerror s @ [e]
        \<and> files (enqueue now rnd req s) = files s
        \<and> q_truncating (enqueue now rnd req s) = q_truncating s"
    then show ?thesis by blast
  next
    assume "\<exists>s2. enqueue now rnd req s = q_truncate s2
        \<and> files s2 = AList.update (q_path s @ ''/'' @ generateFilename (q_resource s) now rnd)
                        (Json (with_retries_0 req)) (files s)
        \<and> q_onerror s2 = q_onerror s \<and> q_truncating s2 = q_truncating s
        \<and> q_path s2 = q_path s \<and> io_fault s2 = io_fault s"
    then obtain s2 where s2: "enqueue now rnd req s = q_truncate s2"
        "files s2 = AList.update (q_path s @ ''/'' @ generateFilename (q_resource s) now rnd)
                        (Json (with_retries_0 req)) (files s)"
        "q_onerror s2 = q_onerror s" by blast
    from truncate_reports[of s2] obtain es where
      "q_onerror (q_truncate s2) = q_onerror s2 @ es" "list_all listing_or_delete_failure es" by blast
    with s2 show ?thesis by auto
  qed
next
  assume "faulted (ReadDirectory (q_path s)) s \<or> q_path s \<notin> set (dirs s)"
  from peek_body_nodir[OF this]
  show "peek s = Some (None, onerror (FsError (ReadDirectory (q_path s))) (tick s))"
    by (subst peek.simps) simp
next
  assume "\<forall>k p. \<not> io_fault s k (Delete p)"
  from peek_returns[OF this] obtain r s' where "peek_within (length (listing s)) s = Some (r, s')"
    by blast
  with peek_within_peek show "\<exists>r s'. peek s = Some (r, s')" by blast
qed

theorem operations_never_raise_witness:
  "q_path ex_fresh \<notin> set (dirs ex_fresh)
   \<and> peek ex_fresh = Some (None, onerror (FsError (ReadDirectory (q_path ex_fresh))) (tick ex_fresh))
   \<and> (\<forall>k p. \<not> io_fault ex_corrupt k (Delete p))
   \<and> (\<exists>r s'. peek ex_corrupt = Some (r, s'))"
  using operations_never_raise[of "[]" ex_fresh JNull ex_now ex_rnd JNull]
        operations_never_raise[of "[]" ex_corrupt JNull ex_now ex_rnd JNull]
        ex_fresh_facts(2) ex_corrupt_facts(1)
  by (simp add: no_faults_def)

text \<open>
  The claim as stated fails for \<^verbatim>\<open>peek\<close>: when the oldest entry is corrupt and its
  delete keeps failing, \<^verbatim>\<open>peek\<close> never completes.
\<close>

theorem peek_never_returns:
  "io_fault ex_stuck_two = delete_fails \<and> listing ex_stuck_two = [ex_a, ex_b]
   \<and> map_of (files ex_stuck_two) (q_path ex_stuck_two @ ''/'' @ ex_a) = Some (Corrupt ''{'')
   \<and> peek ex_stuck_two = None"
  using stuck_forever[OF ex_stuck_two_facts(1,2) ex_stuck_two_listing ex_stuck_two_facts(3)]
    ex_stuck_two_facts(1) ex_stuck_two_listing
  by (simp add: ex_stuck_two_def)

subsection \<open>C5: what peek tells the error callback\<close>

text \<open>
  Claim C5, amended. \<^verbatim>\<open>peek\<close> calls the error callback only with a failed listing of
  the directory or a failed delete. An entry that cannot be read or parsed is deleted
  without a report: on a file system without faults \<^verbatim>\<open>peek\<close> returns and has not
  called the error callback, however many corrupt entries it has deleted.
\<close>

theorem peek_reports:
  "(peek s = Some (r, s') \<longrightarrow>
      (\<exists>es. q_onerror s' = q_onerror s @ es \<and> list_all listing_or_delete_failure es))
   \<and> (io_fault s = no_faults \<longrightarrow> q_path s \<in> set (dirs s) \<longrightarrow>
      (\<exists>r s'. peek s = Some (r, s') \<and> q_onerror s' = q_onerror s))"
proof (intro conjI impI)
  assume "peek s = Some (r, s')"
  from peek_reports_only[OF this]
  show "\<exists>es. q_onerror s' = q_onerror s @ es \<and> list_all listing_or_delete_failure es" by simp
next
  assume nf: "io_fault s = no_faults" and dir: "q_path s \<in> set (dirs s)"
  then have "\<forall>k p. \<not> io_fault s k (Delete p)" by (simp add: no_faults_def)
  from peek_returns[OF this] nf dir obtain r s' where
    "peek_within (length (listing s)) s = Some (r, s')" "q_onerror s' = q_onerror s" by blast
  with peek_within_peek show "\<exists>r s'. peek s = Some (r, s') \<and> q_onerror s' = q_onerror s" by blast
qed

theorem peek_reports_witness:
  "peek ex_corrupt = Some (None, tick (remove (q_path ex_corrupt @ CHR ''/'' # ex_a) (tick (tick ex_corrupt))))
   \<and> io_fault ex_corrupt = no_faults \<and> q_path ex_corrupt \<in> set (dirs ex_corrupt)
   \<and> (\<exists>r s'. peek ex_corrupt = Some (r, s') \<and> q_onerror s' = q_onerror ex_corrupt)"
  using peek_reports[of ex_corrupt None "tick (remove (q_path ex_corrupt @ CHR ''/'' # ex_a) (tick (tick ex_corrupt)))"]
    ex_corrupt_peek ex_corrupt_facts(1,2)
  by blast

text \<open>
  The claim as stated fails: a store holding one corrupt entry is empty after
  \<^verbatim>\<open>peek\<close>, which returns \<^verbatim>\<open>null\<close>, and the error callback has not been called.
\<close>

theorem corrupt_entry_unreported:
  "map_of (files ex_corrupt) (q_path ex_corrupt @ ''/'' @ ex_a) = Some (Corrupt ''{'')
   \<and> map_option fst (peek ex_corrupt) = Some None
   \<and> map_option (files \<circ> snd) (peek ex_corrupt) = Some []
   \<and> map_option (q_onerror \<circ> snd) (peek ex_corrupt) = Some []"
proof -
  let ?p = "q_path ex_corrupt @ CHR ''/'' # ex_a"
  have nft: "\<not> faulted (Delete ?p) (tick (tick ex_corrupt))"
    using ex_corrupt_facts(1) by simp
  have pr: "present ?p (tick (tick ex_corrupt))"
    by (simp add: present_def ex_corrupt_facts(3))
  have "files (remove ?p (tick (tick ex_corrupt))) = []"
    unfolding remove_ok(1)[OF nft pr] by (simp add: ex_corrupt_facts(5))
  moreover have "q_onerror (remove ?p (tick (tick ex_corrupt))) = []"
    unfolding remove_ok(3)[OF nft pr] by (simp add: ex_corrupt_facts(4))
  ultimately show ?thesis
    by (simp add: ex_corrupt_peek ex_corrupt_facts(3))
qed

subsection \<open>C6: peek terminates when deletes succeed\<close>

text \<open>
  Claim C6, amended. Provided no delete fails, \<^verbatim>\<open>peek\<close> returns after calling itself
  at most as many times as the queue is long, because every pass that ends in another
  call has removed the oldest entry and so made the queue shorter.
\<close>

theorem peek_terminates:
  assumes "\<forall>k p. \<not> io_fault s k (Delete p)"
  shows "(\<exists>x. peek_within (length (listing s)) s = Some x \<and> peek s = Some x)
       \<and> (\<forall>s1. peek_body s = (PeekAgain, s1) \<longrightarrow> length (listing s1) < length (listing s))"
proof
  from peek_returns[OF assms] obtain x where "peek_within (length (listing s)) s = Some x" by blast
  with peek_within_peek show "\<exists>x. peek_within (length (listing s)) s = Some x \<and> peek s = Some x"
    by blast
next
  show "\<forall>s1. peek_body s = (PeekAgain, s1) \<longrightarrow> length (listing s1) < length (listing s)"
  proof (intro allI impI)
    fix s1 assume pb: "peek_body s = (PeekAgain, s1)"
    have nodir: "\<not> (faulted (ReadDirectory (q_path s)) s \<or> q_path s \<notin> set (dirs s))"
      using peek_body_nodir pb by fastforce
    then have nrd: "\<not> faulted (ReadDirectory (q_path s)) s" and dir: "q_path s \<in> set (dirs s)"
      by simp_all
    obtain n rest where l: "listing s = n # rest"
      using peek_body_empty[OF nrd dir] pb by (cases "listing s") auto
    let ?p = "q_path s @ CHR ''/'' # n"
    have heal: "faulted (ReadAsString ?p) (tick s) \<or> (\<forall>v. map_of (files s) ?p \<noteq> Some (Json v))"
      using peek_body_valid[OF nrd dir l] pb by fastforce
    from peek_body_heal[OF nrd dir l heal] pb have s1: "s1 = remove ?p (tick (tick s))" by simp
    have nft: "\<not> faulted (Delete ?p) (tick (tick s))" using assms by (simp add: faulted_def)
    from heal_step(4)[OF nft dir l] show "length (listing s1) < length (listing s)"
      unfolding s1 l by (simp add: le_imp_less_Suc)
  qed
qed

theorem peek_terminates_witness:
  "(\<forall>k p. \<not> io_fault ex_corrupt k (Delete p))
   \<and> (\<exists>x. peek_within (length (listing ex_corrupt)) ex_corrupt = Some x \<and> peek ex_corrupt = Some x)"
  using peek_terminates[of ex_corrupt]
  by (simp add: ex_corrupt_facts(1) no_faults_def)

text \<open>
  The claim as stated fails when a delete fails: with one corrupt entry whose delete
  is refused, the queue has length one and stays so, and neither one nor a thousand
  calls of \<^verbatim>\<open>peek\<close> to itself are enough.
\<close>

theorem peek_stuck_beyond_length:
  "length (listing ex_stuck) = 1 \<and> peek_within 1 ex_stuck = None \<and> peek_within 1000 ex_stuck = None"
  using stuck_within[OF ex_stuck_facts(1,2) ex_stuck_listing ex_stuck_facts(3)]
  by (simp add: ex_stuck_listing)

subsection \<open>C7: the retry counter\<close>

text \<open>
  Claim C7, amended. \<^verbatim>\<open>enqueue\<close> stores \<^verbatim>\<open>retries\<close> as 0 whatever the request is,
  also when the request has a \<^verbatim>\<open>retries\<close> field of its own. \<^verbatim>\<open>enqueue\<close> writes only
  the file under the name it generates, and replaces a record already stored under
  that name; every other file is afterwards gone or as it was. After \<^verbatim>\<open>peek\<close> and
  after \<^verbatim>\<open>remove\<close> every file is gone or as it was. \<^verbatim>\<open>update\<close> rewrites only the
  record it is given; the counter of that record becomes the \<^verbatim>\<open>retries\<close> of the
  caller's updates when they have one and stays as it was otherwise. The queue does
  not compare the new counter with the old one.
\<close>

theorem retries_set_by_enqueue_kept_by_others:
  "retries (with_retries_0 req) = Some (JNum 0)
   \<and> (map_of (files (enqueue now rnd req s)) f = None
      \<or> map_of (files (enqueue now rnd req s)) f = map_of (files s) f
      \<or> (f = q_path s @ ''/'' @ generateFilename (q_resource s) now rnd
         \<and> map_of (files (enqueue now rnd req s)) f = Some (Json (with_retries_0 req))))
   \<and> (peek s = Some (r, s') \<longrightarrow>
        map_of (files s') f = None \<or> map_of (files s') f = map_of (files s) f)
   \<and> (map_of (files (remove p s)) f = None \<or> map_of (files (remove p s)) f = map_of (files s) f)
   \<and> (map_of (files (update p u s)) f = map_of (files s) f
      \<or> (f = p \<and> (\<exists>payload. map_of (files s) p = Some (Json payload)
           \<and> map_of (files (update p u s)) p = Some (Json (shallow_merge payload u)))))
   \<and> (distinct (map fst (spread payload)) \<longrightarrow> distinct (map fst (spread u)) \<longrightarrow>
        retries (shallow_merge payload u)
        = (case retries u of Some n \<Rightarrow> Some n | None \<Rightarrow> retries payload))"
  using retries_with_retries_0[of req] enqueue_kept[of now rnd req s f]
    peek_kept[of s "(r, s')" f] remove_kept[of p s f] update_kept[of p u s f]
    retries_shallow_merge[of payload u]
  by simp

theorem retries_set_by_enqueue_kept_by_others_witness:
  "peek ex_corrupt = Some (None, tick (remove (q_path ex_corrupt @ CHR ''/'' # ex_a) (tick (tick ex_corrupt))))
   \<and> distinct (map fst (spread (JObj [(''body'', JStr ''report''), (''retries'', JNum 3)])))
   \<and> distinct (map fst (spread (JObj [(''retries'', JNum 4)])))
   \<and> retries (shallow_merge (JObj [(''body'', JStr ''report''), (''retries'', JNum 3)])
                             (JObj [(''retries'', JNum 4)])) = Some (JNum 4)
   \<and> retries (with_retries_0 (JObj [(''retries'', JNum 7)])) = Some (JNum 0)"
  using retries_set_by_enqueue_kept_by_others[where req = "JObj [(''retries'', JNum 7)]"
      and now = ex_now and rnd = ex_rnd and s = ex_corrupt and f = "[]" and p = "[]" and r = None
      and s' = "tick (remove (q_path ex_corrupt @ CHR ''/'' # ex_a) (tick (tick ex_corrupt)))"
      and payload = "JObj [(''body'', JStr ''report''), (''retries'', JNum 3)]"
      and u = "JObj [(''retries'', JNum 4)]"]
    ex_corrupt_peek
  by (simp add: retries_def)

text \<open>
  The claim as stated fails: \<^verbatim>\<open>update\<close> with \<^verbatim>\<open>{ retries: 1 }\<close> on a record whose
  counter is 3 stores 1.
\<close>

theorem update_lowers_retries:
  "map_of (files ex_retried) (''cache/bugsnag/events/'' @ ex_a)
     = Some (Json (JObj [(''body'', JStr ''report''), (''retries'', JNum 3)]))
   \<and> map_of (files (update (''cache/bugsnag/events/'' @ ex_a) (JObj [(''retries'', JNum 1)]) ex_retried))
        (''cache/bugsnag/events/'' @ ex_a)
     = Some (Json (JObj [(''body'', JStr ''report''), (''retries'', JNum 1)]))"
  by (simp add: ex_retried_facts update_def readAsStringAsync_def JSON_parse_def JSON_stringify_def
      writeAsStringAsync_def shallow_merge_def copy_props_def put_prop_def array_index_examples
      child_name_def)

subsection \<open>C8: removing twice\<close>

text \<open>
  Claim C8, amended. When a first \<^verbatim>\<open>remove\<close> of an identifier has succeeded, a second
  \<^verbatim>\<open>remove\<close> of the same identifier returns normally and leaves the stored files and
  directories as they were, but it is not silent: the delete fails because nothing is
  there, and \<^verbatim>\<open>remove\<close> hands that failure to the error callback.
\<close>

theorem remove_twice:
  assumes "\<not> faulted (Delete p) s" and "present p s"
  shows "q_onerror (remove p s) = q_onerror s
       \<and> files (remove p (remove p s)) = files (remove p s)
       \<and> dirs (remove p (remove p s)) = dirs (remove p s)
       \<and> q_truncating (remove p (remove p s)) = q_truncating (remove p s)
       \<and> q_onerror (remove p (remove p s)) = q_onerror s @ [FsError (Delete p)]"
  using remove_again[OF assms] by simp

theorem remove_twice_witness:
  "\<not> faulted (Delete (''cache/bugsnag/events/'' @ ex_a)) ex_one
   \<and> present (''cache/bugsnag/events/'' @ ex_a) ex_one
   \<and> files (remove (''cache/bugsnag/events/'' @ ex_a) (remove (''cache/bugsnag/events/'' @ ex_a) ex_one))
       = files (remove (''cache/bugsnag/events/'' @ ex_a) ex_one)
   \<and> q_onerror (remove (''cache/bugsnag/events/'' @ ex_a) (remove (''cache/bugsnag/events/'' @ ex_a) ex_one))
       = [FsError (Delete (''cache/bugsnag/events/'' @ ex_a))]"
proof -
  have 1: "\<not> faulted (Delete (''cache/bugsnag/events/'' @ ex_a)) ex_one"
    by (simp add: ex_one_facts)
  have 2: "present (''cache/bugsnag/events/'' @ ex_a) ex_one"
    by (simp add: present_def ex_one_facts)
  from remove_twice [OF 1 2] 1 2 show ?thesis
    by (simp add: ex_one_facts)
qed

text \<open>
  The claim as stated fails: after one successful \<^verbatim>\<open>remove\<close> the second call ends in
  the error callback.
\<close>

theorem remove_twice_reports:
  "q_onerror (remove (''cache/bugsnag/events/'' @ ex_a) ex_one) = []
   \<and> q_onerror (remove (''cache/bugsnag/events/'' @ ex_a) (remove (''cache/bugsnag/events/'' @ ex_a) ex_one))
     = [FsError (Delete (''cache/bugsnag/events/'' @ ex_a))]"
proof -
  have 1: "\<not> faulted (Delete (''cache/bugsnag/events/'' @ ex_a)) ex_one"
    by (simp add: ex_one_facts)
  have 2: "present (''cache/bugsnag/events/'' @ ex_a) ex_one"
    by (simp add: present_def ex_one_facts)
  from remove_again(1,4) [OF 1 2] show ?thesis
    by (simp add: ex_one_facts)
qed

subsection \<open>C9: one truncation pass at a time\<close>

text \<open>
  Claim C9. While the guard \<^verbatim>\<open>_truncating\<close> is set, a call of \<^verbatim>\<open>_truncate\<close> returns at
  once: it makes no call to the file system and changes nothing. A pass that starts
  with the guard free ends with the guard free, whether the listing failed, the queue
  was within the limit, or entries were removed, and whichever removals failed.
\<close>

theorem truncate_single_flight:
  "(q_truncating s \<longrightarrow> q_truncate s = s) \<and> (\<not> q_truncating s \<longrightarrow> \<not> q_truncating (q_truncate s))"
  by (simp add: q_truncate_def readDirectoryAsync_def Let_def)

theorem truncate_single_flight_witness:
  "q_truncating ((ex_queue [] no_faults)\<lparr>q_truncating := True\<rparr>)
   \<and> q_truncate ((ex_queue [] no_faults)\<lparr>q_truncating := True\<rparr>) = (ex_queue [] no_faults)\<lparr>q_truncating := True\<rparr>
   \<and> \<not> q_truncating (ex_queue [] delete_fails)
   \<and> \<not> q_truncating (q_truncate (ex_queue [] delete_fails))"
  using truncate_single_flight [of "(ex_queue [] no_faults)\<lparr>q_truncating := True\<rparr>"]
        truncate_single_flight [of "ex_queue [] delete_fails"]
  by simp

subsection \<open>C10: files under other names\<close>

text \<open>
  Claim C10. A file of the queue's directory whose name does not match
  \<^verbatim>\<open>bugsnag-*.json\<close> is not in the listing, so it is not counted against
  \<^verbatim>\<open>MAX_ITEMS\<close>; \<^verbatim>\<open>peek\<close> never returns it; and \<^verbatim>\<open>peek\<close>, a truncation pass and
  \<^verbatim>\<open>enqueue\<close> (for a resource name without line terminators) leave it as it is,
  whatever fails. Every identifier that \<^verbatim>\<open>peek\<close> returns is the path of a matching
  name in the directory, and \<^verbatim>\<open>remove\<close> and \<^verbatim>\<open>update\<close> with such an identifier leave
  the file as it is.
\<close>

theorem other_files_invisible:
  assumes "child_name (q_path s) f = Some n" and "\<not> filenameRe n"
  shows "n \<notin> set (listing s)
       \<and> (peek s = Some (r, s') \<longrightarrow> map_of (files s') f = map_of (files s) f \<and> (\<forall>v. r \<noteq> Some (f, v)))
       \<and> map_of (files (q_truncate s)) f = map_of (files s) f
       \<and> (int (length (listing s)) \<le> MAX_ITEMS \<longrightarrow> files (q_truncate s) = files s)
       \<and> (list_all (\<lambda>c. \<not> line_terminator c) (q_resource s) \<longrightarrow>
            map_of (files (enqueue now rnd req s)) f = map_of (files s) f)
       \<and> (peek t = Some (Some (p, v), t') \<and> q_path t = q_path s \<longrightarrow>
            (\<exists>m. filenameRe m \<and> p = q_path s @ ''/'' @ m)
            \<and> map_of (files (remove p s)) f = map_of (files s) f
            \<and> map_of (files (update p u s)) f = map_of (files s) f)"
proof -
  have 1: "n \<notin> set (listing s)" using assms(2) by (auto simp: listing_def)
  have 2: "peek s = Some (r, s') \<longrightarrow> map_of (files s') f = map_of (files s) f \<and> (\<forall>v. r \<noteq> Some (f, v))"
    using peek_other[of s "(r, s')" f n] assms by simp
  have 3: "map_of (files (q_truncate s)) f = map_of (files s) f"
    by (rule truncate_other[OF assms])
  have 4: "int (length (listing s)) \<le> MAX_ITEMS \<longrightarrow> files (q_truncate s) = files s"
    using truncate_within_limit[of s] by (simp add: listing_def)
  have 5: "list_all (\<lambda>c. \<not> line_terminator c) (q_resource s) \<longrightarrow>
            map_of (files (enqueue now rnd req s)) f = map_of (files s) f"
    using enqueue_other[OF assms, of now rnd req] by simp
  have 6: "peek t = Some (Some (p, v), t') \<and> q_path t = q_path s \<longrightarrow>
            (\<exists>m. filenameRe m \<and> p = q_path s @ ''/'' @ m)
            \<and> map_of (files (remove p s)) f = map_of (files s) f
            \<and> map_of (files (update p u s)) f = map_of (files s) f"
  proof
    assume a: "peek t = Some (Some (p, v), t') \<and> q_path t = q_path s"
    then have pk: "peek t = Some (Some (p, v), t')" and qp: "q_path t = q_path s" by simp_all
    from peek_issues[OF pk, of p v] qp have "\<exists>m. filenameRe m \<and> p = q_path s @ ''/'' @ m" by simp
    with issued_other(1)[OF pk qp assms] issued_other(2)[OF pk qp assms, of u]
    show "(\<exists>m. filenameRe m \<and> p = q_path s @ ''/'' @ m)
            \<and> map_of (files (remove p s)) f = map_of (files s) f
            \<and> map_of (files (update p u s)) f = map_of (files s) f" by simp
  qed
  from 1 2 3 4 5 6 show ?thesis by blast
qed

theorem other_files_invisible_witness:
  "child_name (q_path ex_notes) ''cache/bugsnag/events/notes.txt'' = Some ''notes.txt''
   \<and> \<not> filenameRe ''notes.txt''
   \<and> peek ex_notes = Some (None, tick ex_notes)
   \<and> int (length (listing ex_notes)) \<le> MAX_ITEMS
   \<and> list_all (\<lambda>c. \<not> line_terminator c) (q_resource ex_notes)
   \<and> peek ex_one = Some (Some (''cache/bugsnag/events/'' @ ex_a, JObj [(''retries'', JNum 0)]), tick (tick ex_one))
   \<and> q_path ex_one = q_path ex_notes
   \<and> files (q_truncate ex_notes) = files ex_notes
   \<and> map_of (files (tick ex_notes)) ''cache/bugsnag/events/notes.txt'' = Some (Corrupt ''to do'')
   \<and> map_of (files (enqueue ex_now ex_rnd JNull ex_notes)) ''cache/bugsnag/events/notes.txt''
       = Some (Corrupt ''to do'')
   \<and> map_of (files (remove (''cache/bugsnag/events/'' @ ex_a) ex_notes)) ''cache/bugsnag/events/notes.txt''
       = Some (Corrupt ''to do'')
   \<and> map_of (files (update (''cache/bugsnag/events/'' @ ex_a) (JObj [(''retries'', JNum 1)]) ex_notes))
        ''cache/bugsnag/events/notes.txt''
       = Some (Corrupt ''to do'')"
proof -
  have 1: "child_name (q_path ex_notes) ''cache/bugsnag/events/notes.txt'' = Some ''notes.txt''"
    by (simp add: ex_notes_facts child_name_def)
  have 2: "\<not> filenameRe ''notes.txt''" by (simp add: filenameRe_def)
  have 3: "listing ex_notes = []"
    by (simp add: listing_def entries_def ex_notes_facts child_name_def filenameRe_def)
  have 4: "list_all (\<lambda>c. \<not> line_terminator c) (q_resource ex_notes)"
    by (simp add: ex_notes_facts line_terminator_def)
  have 5: "q_path ex_one = q_path ex_notes" by (simp add: ex_one_facts ex_notes_facts)
  have 6: "map_of (files ex_notes) ''cache/bugsnag/events/notes.txt'' = Some (Corrupt ''to do'')"
    by (simp add: ex_notes_facts)
  define p where "p = ''cache/bugsnag/events/'' @ ex_a"
  have pk: "peek ex_one = Some (Some (p, JObj [(''retries'', JNum 0)]), tick (tick ex_one))"
    unfolding p_def by (rule ex_one_peek)
  note t = other_files_invisible[OF 1 2, of None "tick ex_notes" ex_now ex_rnd JNull ex_one p
      "JObj [(''retries'', JNum 0)]" "tick (tick ex_one)" "JObj [(''retries'', JNum 1)]"]
  from t ex_notes_peek pk 1 2 3 4 5 6
  have "files (q_truncate ex_notes) = files ex_notes
   \<and> map_of (files (tick ex_notes)) ''cache/bugsnag/events/notes.txt'' = Some (Corrupt ''to do'')
   \<and> map_of (files (enqueue ex_now ex_rnd JNull ex_notes)) ''cache/bugsnag/events/notes.txt''
       = Some (Corrupt ''to do'')
   \<and> map_of (files (remove p ex_notes)) ''cache/bugsnag/events/notes.txt'' = Some (Corrupt ''to do'')
   \<and> map_of (files (update p (JObj [(''retries'', JNum 1)]) ex_notes)) ''cache/bugsnag/events/notes.txt''
       = Some (Corrupt ''to do'')"
    by (simp add: MAX_ITEMS_def)
  with ex_notes_peek ex_one_peek 1 2 3 4 5 show ?thesis
    unfolding p_def by (simp add: MAX_ITEMS_def)
qed

end
